theory Spec2Isabelle
  imports Main "HOL-Library.Word" "HOL-Library.List_Lexorder"
begin

section \<open>JavaScript strings\<close>

text \<open>
  A JavaScript string is a sequence of UTF-16 code units; \<open>length\<close>, \<open>indexOf\<close>,
  \<open>substring\<close> and the default \<open>sort\<close> all count and compare code units. The
  literals of the scripts are written by their code units:
  U+88C1 U+5224 U+6240 is the terminator (court), U+652F U+90E8 the branch suffix,
  U+51FA U+5F35 U+6240 the sub-office suffix, U+5185 U+306E the marker for
  "within the premises of".
\<close>

type_synonym ustring = "16 word list"

definition ascii :: "string \<Rightarrow> ustring" where
  "ascii s = map of_char s"

definition terminator :: ustring where
  "terminator = [0x88C1, 0x5224, 0x6240]"

definition shibu :: ustring where
  "shibu = [0x652F, 0x90E8]"

definition shutchojo :: ustring where
  "shutchojo = [0x51FA, 0x5F35, 0x6240]"

definition nakaten :: "16 word" where
  "nakaten = 0x30FB"

definition newline :: "16 word" where
  "newline = 0x0A"

definition uchino :: ustring where
  "uchino = [0x5185, 0x306E]"

definition slash :: ustring where
  "slash = [0x2F]"

text \<open>
  \<open>first_index pat xs\<close> is the least position at which \<open>pat\<close> occurs in \<open>xs\<close>.
  \<open>indexOf text pat from\<close> is \<open>text.indexOf(pat, from)\<close>: the start position is
  clamped to the length of the text, and \<open>None\<close> stands for the result -1.
\<close>

fun first_index :: "'a list \<Rightarrow> 'a list \<Rightarrow> nat option" where
  "first_index pat [] = (if pat = [] then Some 0 else None)"
| "first_index pat (x # xs) =
     (if take (length pat) (x # xs) = pat then Some 0
      else map_option Suc (first_index pat xs))"

definition indexOf :: "'a list \<Rightarrow> 'a list \<Rightarrow> nat \<Rightarrow> nat option" where
  "indexOf text pat from =
     (let k = min from (length text)
      in map_option (\<lambda>i. i + k) (first_index pat (drop k text)))"

text \<open>
  \<open>text.substring(a, b)\<close> clamps both positions to the length of the text and swaps
  them when the first is the larger; \<open>text.substring(a)\<close> runs to the end.
\<close>

definition substring :: "'a list \<Rightarrow> nat \<Rightarrow> nat \<Rightarrow> 'a list" where
  "substring text a b =
     (let a' = min a (length text); b' = min b (length text)
      in take (max a' b' - min a' b') (drop (min a' b') text))"

definition substring_from :: "'a list \<Rightarrow> nat \<Rightarrow> 'a list" where
  "substring_from text a = drop (min a (length text)) text"

definition endsWith :: "'a list \<Rightarrow> 'a list \<Rightarrow> bool" where
  "endsWith s suffix =
     (length suffix \<le> length s \<and> drop (length s - length suffix) s = suffix)"

text \<open>
  The positions at which a pattern occurs in a text, and containment of a pattern as a
  contiguous substring. These are the notions the claims speak of; the scripts
  themselves only call \<open>indexOf\<close>.
\<close>

definition occurrences :: "'a list \<Rightarrow> 'a list \<Rightarrow> nat list" where
  "occurrences pat text =
     filter (\<lambda>i. take (length pat) (drop i text) = pat) [0..<Suc (length text)]"

definition contains :: "'a list \<Rightarrow> 'a list \<Rightarrow> bool" where
  "contains text pat \<longleftrightarrow> occurrences pat text \<noteq> []"

text \<open>
  Parts of facility names used in the examples: U+6771 U+4EAC (Tokyo), U+7ACB U+5DDD
  (Tachikawa), U+5730 U+65B9 (district), U+5BB6 U+5EAD (family).
\<close>

definition tokyo :: ustring where
  "tokyo = [0x6771, 0x4EAC]"

definition tachikawa :: ustring where
  "tachikawa = [0x7ACB, 0x5DDD]"

definition chiho :: ustring where
  "chiho = [0x5730, 0x65B9]"

definition katei :: ustring where
  "katei = [0x5BB6, 0x5EAD]"

lemmas sample_defs = tokyo_def tachikawa_def chiho_def katei_def

section \<open>Facts about searching\<close>

lemma first_index_Some:
  "first_index pat xs = Some j \<Longrightarrow>
     take (length pat) (drop j xs) = pat \<and> j + length pat \<le> length xs
     \<and> (\<forall>k<j. take (length pat) (drop k xs) \<noteq> pat)"
proof (induction xs arbitrary: j)
  case Nil
  then show ?case by (simp split: if_splits)
next
  case (Cons x xs)
  show ?case
  proof (cases "take (length pat) (x # xs) = pat")
    case True
    with Cons.prems have "j = 0" by simp
    moreover have "length pat \<le> length (x # xs)"
    proof -
      have "length (take (length pat) (x # xs)) = length pat" using True by simp
      then show ?thesis by (simp add: min_def split: if_splits)
    qed
    ultimately show ?thesis using True by simp
  next
    case False
    with Cons.prems obtain j' where j': "first_index pat xs = Some j'" "j = Suc j'"
      by auto
    from Cons.IH [OF j'(1)] have ih:
      "take (length pat) (drop j' xs) = pat" "j' + length pat \<le> length xs"
      "\<forall>k<j'. take (length pat) (drop k xs) \<noteq> pat" by auto
    have "\<forall>k<j. take (length pat) (drop k (x # xs)) \<noteq> pat"
    proof (intro allI impI)
      fix k assume "k < j"
      show "take (length pat) (drop k (x # xs)) \<noteq> pat"
      proof (cases k)
        case 0
        with False show ?thesis by simp
      next
        case (Suc k')
        with \<open>k < j\<close> j'(2) have "k' < j'" by simp
        with ih(3) Suc show ?thesis by simp
      qed
    qed
    with ih j'(2) show ?thesis by simp
  qed
qed

lemma first_index_None:
  "first_index pat xs = None \<Longrightarrow> take (length pat) (drop k xs) \<noteq> pat"
proof (induction xs arbitrary: k)
  case Nil
  then show ?case by (auto split: if_splits)
next
  case (Cons x xs)
  then show ?case by (cases k) (auto split: if_splits)
qed

lemma indexOf_Some:
  assumes "indexOf t pat i = Some j" and "i \<le> length t"
  shows "i \<le> j" and "j + length pat \<le> length t"
    and "take (length pat) (drop j t) = pat"
    and "\<forall>k. i \<le> k \<and> k < j \<longrightarrow> take (length pat) (drop k t) \<noteq> pat"
proof -
  from assms obtain d where d: "first_index pat (drop i t) = Some d" "j = d + i"
    by (auto simp: indexOf_def min_def split: if_splits)
  note fi = first_index_Some [OF d(1)]
  show "i \<le> j" using d(2) by simp
  have "d + length pat \<le> length t - i" using fi by simp
  then show "j + length pat \<le> length t" using d(2) assms(2) by arith
  show "take (length pat) (drop j t) = pat" using fi d(2) by (simp add: add.commute)
  show "\<forall>k. i \<le> k \<and> k < j \<longrightarrow> take (length pat) (drop k t) \<noteq> pat"
  proof (intro allI impI)
    fix k assume k: "i \<le> k \<and> k < j"
    then have "k - i < d" using d(2) by arith
    with fi have "take (length pat) (drop (k - i) (drop i t)) \<noteq> pat" by blast
    with k show "take (length pat) (drop k t) \<noteq> pat" by simp
  qed
qed

lemma indexOf_None:
  assumes "indexOf t pat i = None" and "i \<le> length t" and "i \<le> k"
  shows "take (length pat) (drop k t) \<noteq> pat"
proof -
  from assms have "first_index pat (drop i t) = None"
    by (simp add: indexOf_def min_def split: if_splits)
  from first_index_None [OF this, of "k - i"] assms(3) show ?thesis by simp
qed

lemma indexOf_terminator_bounds:
  "indexOf t terminator i = Some j \<Longrightarrow> i < length t \<Longrightarrow>
     i \<le> j \<and> j + 3 \<le> length t"
  using indexOf_Some(1,2) [of t terminator i j] by (simp add: terminator_def)

section \<open>The tokenizer\<close>

text \<open>
  \<open>splitCourts\<close> of \<^verbatim>\<open>main.ts\<close>. The loop carries the cursor \<open>currentIndex\<close> and
  the list \<open>results\<close>; a cursor is never negative, so the test \<open>0 <= currentIndex\<close>
  of the source is true of every \<open>nat\<close>.
\<close>

function splitCourts_loop :: "ustring \<Rightarrow> nat \<Rightarrow> ustring list \<Rightarrow> ustring list" where
  "splitCourts_loop text currentIndex results =
     (if 0 \<le> currentIndex \<and> currentIndex < length text then
        (case indexOf text terminator currentIndex of
           None \<Rightarrow> results
         | Some nextCourtEnd \<Rightarrow>
             splitCourts_loop text (nextCourtEnd + 3)
               (results @ [substring text currentIndex (nextCourtEnd + 3)]))
      else results)"
  by pat_completeness auto
termination
proof (relation "measure (\<lambda>(text, currentIndex, results). length text - currentIndex)")
  show "wf (measure (\<lambda>(text, currentIndex, results). length text - currentIndex))" by simp
next
  fix t :: ustring and currentIndex :: nat and results :: "ustring list" and x2 :: nat
  assume "0 \<le> currentIndex \<and> currentIndex < length t"
    and "indexOf t terminator currentIndex = Some x2"
  then have "length t - (x2 + 3) < length t - currentIndex"
    using indexOf_terminator_bounds [of t currentIndex x2] by arith
  then show "((t, x2 + 3, results @ [substring t currentIndex (x2 + 3)]),
              (t, currentIndex, results))
             \<in> measure (\<lambda>(text, currentIndex, results). length text - currentIndex)"
    by simp
qed

definition splitCourts :: "ustring \<Rightarrow> ustring list" where
  "splitCourts text =
     (let results = splitCourts_loop text 0 []
      in if length results < 2 then [text] else results)"

text \<open>
  \<open>splitCourts\<close> of the second script (\<^verbatim>\<open>part_000\<close>): before it cuts at a terminator
  it looks for a further one, and when there is none it takes the whole remainder.
\<close>

function splitCourts_lookahead_loop :: "ustring \<Rightarrow> nat \<Rightarrow> ustring list \<Rightarrow> ustring list" where
  "splitCourts_lookahead_loop text startPos found =
     (if startPos < length text then
        (case indexOf text terminator startPos of
           None \<Rightarrow> found
         | Some courtEndPos \<Rightarrow>
             (let endPos = courtEndPos + 3
              in case indexOf text terminator endPos of
                   Some nextCourtPos \<Rightarrow>
                     splitCourts_lookahead_loop text endPos
                       (found @ [substring text startPos endPos])
                 | None \<Rightarrow> found @ [substring_from text startPos]))
      else found)"
  by pat_completeness auto
termination
proof (relation "measure (\<lambda>(text, startPos, found). length text - startPos)")
  show "wf (measure (\<lambda>(text, startPos, found). length text - startPos))" by simp
next
  fix t :: ustring and startPos :: nat and found :: "ustring list"
    and x2 xa x2a :: nat
  assume "startPos < length t" and "indexOf t terminator startPos = Some x2"
    and "xa = x2 + 3"
  then have "length t - xa < length t - startPos"
    using indexOf_terminator_bounds [of t startPos x2] by arith
  then show "((t, xa, found @ [substring t startPos xa]), (t, startPos, found))
             \<in> measure (\<lambda>(text, startPos, found). length text - startPos)"
    by simp
qed

definition splitCourts_lookahead :: "ustring \<Rightarrow> ustring list" where
  "splitCourts_lookahead text = splitCourts_lookahead_loop text 0 []"

text \<open>
  The two loops once more, as the \<open>while\<close> statements they are: here a loop that
  ran forever would have the value \<open>None\<close>.
\<close>

partial_function (option) splitCourts_while ::
  "ustring \<Rightarrow> nat \<Rightarrow> ustring list \<Rightarrow> ustring list option" where
  "splitCourts_while text currentIndex results =
     (if 0 \<le> currentIndex \<and> currentIndex < length text then
        (case indexOf text terminator currentIndex of
           None \<Rightarrow> Some results
         | Some nextCourtEnd \<Rightarrow>
             splitCourts_while text (nextCourtEnd + 3)
               (results @ [substring text currentIndex (nextCourtEnd + 3)]))
      else Some results)"

partial_function (option) splitCourts_lookahead_while ::
  "ustring \<Rightarrow> nat \<Rightarrow> ustring list \<Rightarrow> ustring list option" where
  "splitCourts_lookahead_while text startPos found =
     (if startPos < length text then
        (case indexOf text terminator startPos of
           None \<Rightarrow> Some found
         | Some courtEndPos \<Rightarrow>
             (let endPos = courtEndPos + 3
              in case indexOf text terminator endPos of
                   Some nextCourtPos \<Rightarrow>
                     splitCourts_lookahead_while text endPos
                       (found @ [substring text startPos endPos])
                 | None \<Rightarrow> Some (found @ [substring_from text startPos])))
      else Some found)"

text \<open>
  The position of the cursor of \<open>splitCourts_loop\<close> when the loop ends.
\<close>

function splitCourts_cursor :: "ustring \<Rightarrow> nat \<Rightarrow> nat" where
  "splitCourts_cursor text currentIndex =
     (if currentIndex < length text then
        (case indexOf text terminator currentIndex of
           None \<Rightarrow> currentIndex
         | Some nextCourtEnd \<Rightarrow> splitCourts_cursor text (nextCourtEnd + 3))
      else currentIndex)"
  by pat_completeness auto
termination
proof (relation "measure (\<lambda>(text, currentIndex). length text - currentIndex)")
  show "wf (measure (\<lambda>(text, currentIndex). length text - currentIndex))" by simp
next
  fix t :: ustring and currentIndex :: nat and x2 :: nat
  assume "currentIndex < length t" and "indexOf t terminator currentIndex = Some x2"
  then have "length t - (x2 + 3) < length t - currentIndex"
    using indexOf_terminator_bounds [of t currentIndex x2] by arith
  then show "((t, x2 + 3), (t, currentIndex))
             \<in> measure (\<lambda>(text, currentIndex). length text - currentIndex)"
    by simp
qed

declare splitCourts_loop.simps [simp del]
declare splitCourts_lookahead_loop.simps [simp del]
declare splitCourts_cursor.simps [simp del]

section \<open>Anchor texts to names\<close>

text \<open>
  \<open>String.prototype.trim\<close> and the class \<open>\s\<close> of a regular expression use the
  same set of code units: the white space and the line terminators of ECMAScript.
\<close>

definition is_whitespace :: "16 word \<Rightarrow> bool" where
  "is_whitespace c \<longleftrightarrow>
     c = 0x09 \<or> c = 0x0A \<or> c = 0x0B \<or> c = 0x0C \<or> c = 0x0D \<or> c = 0x20 \<or> c = 0xA0
     \<or> c = 0x1680 \<or> (0x2000 \<le> c \<and> c \<le> 0x200A) \<or> c = 0x2028 \<or> c = 0x2029
     \<or> c = 0x202F \<or> c = 0x205F \<or> c = 0x3000 \<or> c = 0xFEFF"

definition trim :: "ustring \<Rightarrow> ustring" where
  "trim s = rev (dropWhile is_whitespace (rev (dropWhile is_whitespace s)))"

text \<open>
  \<open>s.replace(/p1|p2|.../g, r)\<close> for literal alternatives: at each position the first
  alternative that matches is replaced by \<open>r\<close> applied to the matched text, and the
  scan goes on behind the match. Every pattern of the scripts is a non-empty literal.
\<close>

function replace_all :: "ustring list \<Rightarrow> (ustring \<Rightarrow> ustring) \<Rightarrow> ustring \<Rightarrow> ustring" where
  "replace_all alts r [] = []"
| "replace_all alts r (x # xs) =
     (case find (\<lambda>p. p \<noteq> [] \<and> take (length p) (x # xs) = p) alts of
        Some p \<Rightarrow> r p @ replace_all alts r (drop (length p) (x # xs))
      | None \<Rightarrow> x # replace_all alts r xs)"
  by pat_completeness auto
termination
proof (relation "measure (\<lambda>(alts, r, s). length s)")
  show "wf (measure (\<lambda>(alts, r, s). length s))" by simp
next
  fix alts :: "ustring list" and r :: "ustring \<Rightarrow> ustring" and x :: "16 word"
    and xs p :: ustring
  assume "find (\<lambda>p. p \<noteq> [] \<and> take (length p) (x # xs) = p) alts = Some p"
  then have "p \<noteq> []" by (auto simp: find_Some_iff)
  then show "((alts, r, drop (length p) (x # xs)), (alts, r, x # xs))
             \<in> measure (\<lambda>(alts, r, s). length s)"
    by simp
next
  fix alts :: "ustring list" and r :: "ustring \<Rightarrow> ustring" and x :: "16 word"
    and xs :: ustring
  show "((alts, r, xs), (alts, r, x # xs)) \<in> measure (\<lambda>(alts, r, s). length s)"
    by simp
qed

text \<open>\<open>s.split(sep)\<close> for a separator of one code unit.\<close>

fun split_on :: "'a \<Rightarrow> 'a list \<Rightarrow> 'a list list" where
  "split_on sep [] = [[]]"
| "split_on sep (x # xs) =
     (if x = sep then [] # split_on sep xs
      else (case split_on sep xs of [] \<Rightarrow> [[x]] | l # ls \<Rightarrow> (x # l) # ls))"

text \<open>
  The two filters on the candidate strings. \<^verbatim>\<open>main.ts\<close> and the third script
  (\<^verbatim>\<open>part_001\<close>) accept the suffixes court and branch; the second script
  (\<^verbatim>\<open>part_000\<close>) accepts sub-office as well.
\<close>

definition candidate_filter :: "ustring list \<Rightarrow> ustring list" where
  "candidate_filter candidates =
     filter (\<lambda>s. indexOf s uchino 0 = None \<and> indexOf s slash 0 = None)
       (filter (\<lambda>s. endsWith s terminator \<or> endsWith s shibu) candidates)"

definition candidate_filter_part000 :: "ustring list \<Rightarrow> ustring list" where
  "candidate_filter_part000 candidates =
     filter (\<lambda>s. indexOf s uchino 0 = None \<and> indexOf s slash 0 = None)
       (filter (\<lambda>s. endsWith s terminator \<or> endsWith s shibu \<or> endsWith s shutchojo)
          candidates)"

text \<open>
  The line-splitting step. \<^verbatim>\<open>main.ts\<close> puts a line break behind every branch and
  sub-office suffix and replaces the middle dot by one; the second script keeps the middle
  dot and puts the line break behind it.
\<close>

definition split_lines :: "ustring \<Rightarrow> ustring list" where
  "split_lines s =
     filter (\<lambda>line. 0 < length (trim line))
       (map (\<lambda>line. trim line)
          (split_on newline
             (replace_all [[nakaten]] (\<lambda>m. [newline])
                (replace_all [shutchojo] (\<lambda>m. shutchojo @ [newline])
                   (replace_all [shibu] (\<lambda>m. shibu @ [newline]) s)))))"

definition split_lines_part000 :: "ustring \<Rightarrow> ustring list" where
  "split_lines_part000 s =
     filter (\<lambda>line. 0 < length (trim line))
       (map (\<lambda>line. trim line)
          (split_on newline
             (replace_all [shibu, shutchojo, [nakaten]] (\<lambda>m. m @ [newline]) s)))"

text \<open>
  The final cleanup of a token: \<open>s.trim().replace(/[...]|\s/g, "")\<close>, where the class
  holds U+FF0C, U+FF0E, U+FF65 and U+30FB. Every match is one code unit and is removed.
\<close>

definition is_punctuation :: "16 word \<Rightarrow> bool" where
  "is_punctuation c \<longleftrightarrow> c = 0xFF0C \<or> c = 0xFF0E \<or> c = 0xFF65 \<or> c = 0x30FB"

definition final_cleanup :: "ustring \<Rightarrow> ustring" where
  "final_cleanup s = filter (\<lambda>c. \<not> (is_punctuation c \<or> is_whitespace c)) (trim s)"

text \<open>
  \<open>new Set(xs)\<close>, spread into an array again: the elements in the order in which they
  were first inserted.
\<close>

fun set_add_all :: "'a list \<Rightarrow> 'a list \<Rightarrow> 'a list" where
  "set_add_all seen [] = seen"
| "set_add_all seen (x # xs) =
     set_add_all (if x \<in> set seen then seen else seen @ [x]) xs"

definition new_Set :: "'a list \<Rightarrow> 'a list" where
  "new_Set xs = set_add_all [] xs"

text \<open>
  The last three statements of \<open>scrapePage\<close>, the same in the three scripts: a set, the
  default sort (strings compared by their code units), and a stable sort by length.
\<close>

definition aggregate :: "ustring list \<Rightarrow> ustring list" where
  "aggregate lines =
     (let uniq = new_Set lines;
          sorted = sort uniq
      in sort_key length sorted)"

text \<open>From the candidate strings of a page to its lines, in each of the three scripts.\<close>

definition scrape_lines :: "ustring list \<Rightarrow> ustring list" where
  "scrape_lines candidates =
     map final_cleanup
       (concat (map splitCourts
          (concat (map split_lines (candidate_filter candidates)))))"

definition scrape_lines_part000 :: "ustring list \<Rightarrow> ustring list" where
  "scrape_lines_part000 candidates =
     filter (\<lambda>s. 0 < length s)
       (map final_cleanup
          (concat (map splitCourts_lookahead
             (concat (map split_lines_part000 (candidate_filter_part000 candidates))))))"

definition scrape_lines_part001 :: "ustring list \<Rightarrow> ustring list" where
  "scrape_lines_part001 candidates =
     concat (map split_lines (candidate_filter candidates))"

text \<open>
  The code points a string encodes: a high surrogate followed by a low surrogate stands
  for one code point beyond U+FFFF, every other code unit for itself. The scripts never
  decode a string; the code points are what the specification's order of names speaks of.
\<close>

definition is_high_surrogate :: "16 word \<Rightarrow> bool" where
  "is_high_surrogate c \<longleftrightarrow> 0xD800 \<le> c \<and> c \<le> 0xDBFF"

definition is_low_surrogate :: "16 word \<Rightarrow> bool" where
  "is_low_surrogate c \<longleftrightarrow> 0xDC00 \<le> c \<and> c \<le> 0xDFFF"

fun codepoints :: "ustring \<Rightarrow> nat list" where
  "codepoints [] = []"
| "codepoints [c] = [unat c]"
| "codepoints (h # l # rest) =
     (if is_high_surrogate h \<and> is_low_surrogate l
      then (0x10000 + (unat h - 0xD800) * 0x400 + (unat l - 0xDC00)) # codepoints rest
      else unat h # codepoints (l # rest))"

section \<open>Pages, the crawl and the output files\<close>

text \<open>
  The network, the HTML parser, the file system and the clock are outside the scripts:
  they are the fields of an environment. \<open>fetch\<close> may throw or give a response,
  and what it does depends on the URL only;
  \<open>parseFromString\<close> gives a document or \<open>null\<close>; \<open>writeTextFile\<close> gives the
  error it throws, if any; \<open>toISOString k\<close> is the time read by the \<open>k\<close>-th call of
  \<open>getTimestamp\<close>. Of a parsed document the scripts use the \<open>a\<close> elements, with
  their \<open>href\<close> and \<open>title\<close> attributes and their inner text, and the inner
  texts of the elements selected by \<^verbatim>\<open>tr > td:nth-child(1)\<close>.
\<close>

datatype error =
    NetworkError
  | HttpError nat
  | ParseFailed
  | WriteFailed
  | ErrorIn ustring error

record response =
  ok :: bool
  status :: nat
  body :: ustring

record anchor =
  href :: "ustring option"
  title :: "ustring option"
  innerText :: ustring

record document =
  anchors :: "anchor list"
  first_cells :: "ustring list"

record env =
  fetch :: "ustring \<Rightarrow> error + response"
  parseFromString :: "ustring \<Rightarrow> document option"
  writeTextFile :: "ustring \<Rightarrow> ustring \<Rightarrow> error option"
  toISOString :: "nat \<Rightarrow> ustring"

record ScrapeResult =
  url :: ustring
  data :: "ustring list"

text \<open>
  What a run does to the outside is a trace of events. A written file carries the call
  of \<open>saveAsFile\<close> in \<open>main\<close> that wrote it: the one in the loop over the results or
  the one for the combined data.
\<close>

datatype message =
    Fetching ustring
  | Scraped "ustring list"
  | Waiting nat nat nat
  | Progress nat nat

datatype target = PerSource | Combined

datatype event =
    ConsoleLog message
  | ConsoleError error
  | Sleep nat
  | FileWritten target ustring ustring

text \<open>The candidate strings of a document, in each of the three scripts.\<close>

definition candidates_of :: "document \<Rightarrow> ustring list" where
  "candidates_of document =
     map (\<lambda>atag.
            let s = (case title atag of Some v \<Rightarrow> v | None \<Rightarrow> [])
            in if s \<noteq> [] then s else trim (innerText atag))
         (anchors document)"

definition candidates_of_part001 :: "document \<Rightarrow> ustring list" where
  "candidates_of_part001 document = map (\<lambda>atag. trim (innerText atag)) (anchors document)"

definition is_line_terminator :: "16 word \<Rightarrow> bool" where
  "is_line_terminator c \<longleftrightarrow> c = 0x0A \<or> c = 0x0D \<or> c = 0x2028 \<or> c = 0x2029"

text \<open>
  \<open>s.replace(/MAP.+$/g, "")\<close>, where MAP is U+5730 U+56F3: the text from the first
  MAP that is followed, up to the end of the string, by at least one code unit and by no
  line terminator.
\<close>

fun strip_map :: "ustring \<Rightarrow> ustring" where
  "strip_map [] = []"
| "strip_map (x # xs) =
     (if take 2 (x # xs) = [0x5730, 0x56F3] \<and> drop 2 (x # xs) \<noteq> []
         \<and> filter is_line_terminator (drop 2 (x # xs)) = []
      then []
      else x # strip_map xs)"

definition candidates_of_part000 :: "ustring \<Rightarrow> document \<Rightarrow> ustring list" where
  "candidates_of_part000 url' document =
     (if indexOf url' (ascii ''/okayama/about/'') 0 \<noteq> None
         \<or> indexOf url' (ascii ''/matsue/about/'') 0 \<noteq> None
      then map (\<lambda>el. strip_map el) (first_cells document)
      else map (\<lambda>atag. trim (innerText atag)) (anchors document))"

text \<open>
  \<open>scrapePage\<close>: every error inside is caught and thrown again with the URL. The
  three scripts differ in the candidates and in the steps from the candidates to the lines.
\<close>

definition scrapePage_with ::
  "(ustring \<Rightarrow> document \<Rightarrow> ustring list) \<Rightarrow> env \<Rightarrow> ustring
     \<Rightarrow> event list \<times> (error + ustring list)" where
  "scrapePage_with lines_of env url' =
     ([ConsoleLog (Fetching url')],
      (case fetch env url' of
         Inl e \<Rightarrow> Inl (ErrorIn url' e)
       | Inr response \<Rightarrow>
           if \<not> ok response then Inl (ErrorIn url' (HttpError (status response)))
           else (case parseFromString env (body response) of
                   None \<Rightarrow> Inl (ErrorIn url' ParseFailed)
                 | Some document \<Rightarrow> Inr (aggregate (lines_of url' document)))))"

definition scrapePage :: "env \<Rightarrow> ustring \<Rightarrow> event list \<times> (error + ustring list)" where
  "scrapePage = scrapePage_with (\<lambda>url' document. scrape_lines (candidates_of document))"

definition scrapePage_part000 ::
  "env \<Rightarrow> ustring \<Rightarrow> event list \<times> (error + ustring list)" where
  "scrapePage_part000 =
     scrapePage_with
       (\<lambda>url' document. scrape_lines_part000 (candidates_of_part000 url' document))"

definition scrapePage_part001 ::
  "env \<Rightarrow> ustring \<Rightarrow> event list \<times> (error + ustring list)" where
  "scrapePage_part001 =
     scrapePage_with (\<lambda>url' document. scrape_lines_part001 (candidates_of_part001 document))"

text \<open>
  \<open>scrapePages\<close> of \<^verbatim>\<open>main.ts\<close>: the loop over the indices of \<open>urls\<close>, with the
  results and the trace so far. Inside the loop \<open>urls\<close> is not empty, so
  \<open>length urls - 1\<close> is the number the source computes.
\<close>

function scrapePages_loop ::
  "env \<Rightarrow> ustring list \<Rightarrow> nat \<Rightarrow> nat \<Rightarrow> ScrapeResult list \<Rightarrow> event list
     \<Rightarrow> ScrapeResult list \<times> event list" where
  "scrapePages_loop env urls delayMs i results trace =
     (if i < length urls then
        (let url' = urls ! i;
             attempt = scrapePage env url';
             results' = (case snd attempt of
                           Inr result \<Rightarrow> results @ [\<lparr>url = url', data = result\<rparr>]
                         | Inl error \<Rightarrow> results);
             trace' = trace @ fst attempt
                        @ (case snd attempt of
                             Inr result \<Rightarrow> [ConsoleLog (Scraped result)]
                           | Inl error \<Rightarrow> [ConsoleError error]);
             trace'' = (if i < length urls - 1
                        then trace' @ [ConsoleLog (Waiting (i + 1) (length urls) delayMs),
                                       Sleep delayMs]
                        else trace')
         in scrapePages_loop env urls delayMs (i + 1) results' trace'')
      else (results, trace))"
  by pat_completeness auto
termination
  by (relation "measure (\<lambda>(env, urls, delayMs, i, results, trace). length urls - i)") auto

declare scrapePages_loop.simps [simp del]

definition scrapePages ::
  "env \<Rightarrow> ustring list \<Rightarrow> nat \<Rightarrow> ScrapeResult list \<times> event list" where
  "scrapePages env urls delayMs = scrapePages_loop env urls delayMs 0 [] []"

text \<open>
  \<open>scrapePages\<close> of the second script: the progress is logged at the start of each
  round, and nothing is logged before the pause.
\<close>

function scrapePages_part000_loop ::
  "env \<Rightarrow> ustring list \<Rightarrow> nat \<Rightarrow> nat \<Rightarrow> ScrapeResult list \<Rightarrow> event list
     \<Rightarrow> ScrapeResult list \<times> event list" where
  "scrapePages_part000_loop env urls delayMs i results trace =
     (if i < length urls then
        (let url' = urls ! i;
             attempt = scrapePage_part000 env url';
             results' = (case snd attempt of
                           Inr result \<Rightarrow> results @ [\<lparr>url = url', data = result\<rparr>]
                         | Inl error \<Rightarrow> results);
             trace' = trace @ [ConsoleLog (Progress (i + 1) (length urls))] @ fst attempt
                        @ (case snd attempt of
                             Inr result \<Rightarrow> [ConsoleLog (Scraped result)]
                           | Inl error \<Rightarrow> [ConsoleError error]);
             trace'' = (if i < length urls - 1 then trace' @ [Sleep delayMs] else trace')
         in scrapePages_part000_loop env urls delayMs (i + 1) results' trace'')
      else (results, trace))"
  by pat_completeness auto
termination
  by (relation "measure (\<lambda>(env, urls, delayMs, i, results, trace). length urls - i)") auto

declare scrapePages_part000_loop.simps [simp del]

definition scrapePages_part000 ::
  "env \<Rightarrow> ustring list \<Rightarrow> nat \<Rightarrow> ScrapeResult list \<times> event list" where
  "scrapePages_part000 env urls delayMs = scrapePages_part000_loop env urls delayMs 0 [] []"











definition allData :: "ScrapeResult list \<Rightarrow> ustring list" where
  "allData results = concat (map (\<lambda>result. data result) results)"

definition allData_part000 :: "ScrapeResult list \<Rightarrow> ustring list" where
  "allData_part000 results = new_Set (concat (map (\<lambda>result. data result) results))"





text \<open>
  What can be read off a trace: the errors logged, the URLs for which a fetch was
  announced, and the combined files written.
\<close>

definition logged_errors :: "event list \<Rightarrow> error list" where
  "logged_errors trace =
     concat (map (\<lambda>ev. case ev of ConsoleError e \<Rightarrow> [e] | _ \<Rightarrow> []) trace)"

definition fetched :: "event list \<Rightarrow> ustring list" where
  "fetched trace =
     concat (map (\<lambda>ev. case ev of ConsoleLog (Fetching u) \<Rightarrow> [u] | _ \<Rightarrow> []) trace)"

definition combined_files :: "event list \<Rightarrow> (ustring \<times> ustring) list" where
  "combined_files trace =
     concat (map (\<lambda>ev. case ev of FileWritten Combined f c \<Rightarrow> [(f, c)] | _ \<Rightarrow> []) trace)"

text \<open>
  An environment for the examples: the request for the URL \<^verbatim>\<open>down\<close> fails, every
  other request is answered with status 200, every body parses to the same page, which
  has one link, and the file system either accepts every write or refuses every write.
\<close>

definition sample_page :: "ustring \<Rightarrow> ustring \<Rightarrow> document" where
  "sample_page link label =
     \<lparr>anchors = [\<lparr>href = Some link, title = None, innerText = label\<rparr>], first_cells = []\<rparr>"

definition sample_env :: "document \<Rightarrow> bool \<Rightarrow> env" where
  "sample_env page disk_ok =
     \<lparr>fetch = (\<lambda>u. if u = ascii ''down'' then Inl NetworkError
                   else Inr \<lparr>ok = True, status = 200, body = []\<rparr>),
      parseFromString = (\<lambda>html. Some page),
      writeTextFile = (\<lambda>filename content. if disk_ok then None else Some WriteFailed),
      toISOString = (\<lambda>k. ascii ''2023-10-15T12:34:56.789Z'')\<rparr>"

text \<open>
  An environment with every kind of failure: the request for \<^verbatim>\<open>down\<close> throws, the
  one for \<^verbatim>\<open>busy\<close> is answered with status 503, the one for \<^verbatim>\<open>broken\<close> with
  a body that does not parse, and every other request with a page that parses and has one
  link, which names a district court.
\<close>

definition faulty_env :: env where
  "faulty_env =
     \<lparr>fetch = (\<lambda>u. if u = ascii ''down'' then Inl NetworkError
                   else if u = ascii ''busy'' then Inr \<lparr>ok = False, status = 503, body = []\<rparr>
                   else if u = ascii ''broken''
                        then Inr \<lparr>ok = True, status = 200, body = ascii ''<''\<rparr>
                   else Inr \<lparr>ok = True, status = 200, body = []\<rparr>),
      parseFromString = (\<lambda>html. if html = [] then Some (sample_page [] (tokyo @ chiho @ terminator))
                                else None),
      writeTextFile = (\<lambda>filename content. None),
      toISOString = (\<lambda>k. ascii ''2023-10-15T12:34:56.789Z'')\<rparr>"

section \<open>Facts about occurrences\<close>

lemma occurrences_iff:
  "i \<in> set (occurrences pat t) \<longleftrightarrow> i \<le> length t \<and> take (length pat) (drop i t) = pat"
  by (auto simp: occurrences_def simp del: upt_Suc)

lemma distinct_occurrences: "distinct (occurrences pat t)"
  by (simp add: occurrences_def)

lemma contains_indexOf: "contains t pat \<longleftrightarrow> indexOf t pat 0 \<noteq> None"
proof
  assume "contains t pat"
  then have "hd (occurrences pat t) \<in> set (occurrences pat t)" by (simp add: contains_def)
  then obtain i where "i \<in> set (occurrences pat t)" ..
  then have "take (length pat) (drop i t) = pat" by (simp add: occurrences_iff)
  then show "indexOf t pat 0 \<noteq> None"
    using indexOf_None [of t pat 0 i] by auto
next
  assume "indexOf t pat 0 \<noteq> None"
  then obtain j where j: "indexOf t pat 0 = Some j" by auto
  from indexOf_Some(2,3) [OF j] have "j \<in> set (occurrences pat t)"
    by (simp add: occurrences_iff)
  then show "contains t pat" by (auto simp: contains_def)
qed

lemma contains_iff_append:
  "contains t pat \<longleftrightarrow> (\<exists>pre post. t = pre @ pat @ post)"
proof
  assume "contains t pat"
  then have "hd (occurrences pat t) \<in> set (occurrences pat t)" by (simp add: contains_def)
  then obtain i where "i \<in> set (occurrences pat t)" ..
  then have i: "take (length pat) (drop i t) = pat" by (simp add: occurrences_iff)
  have "t = take i t @ take (length pat) (drop i t) @ drop (length pat) (drop i t)"
    by (simp only: append_take_drop_id)
  with i show "\<exists>pre post. t = pre @ pat @ post" by metis
next
  assume "\<exists>pre post. t = pre @ pat @ post"
  then obtain pre post where t: "t = pre @ pat @ post" by blast
  then have "length pre \<in> set (occurrences pat t)" by (simp add: occurrences_iff)
  then show "contains t pat" by (auto simp: contains_def)
qed

lemma two_occurrences:
  assumes "take (length pat) (drop a t) = pat" and "take (length pat) (drop b t) = pat"
    and "a < b" and "b \<le> length t"
  shows "2 \<le> length (occurrences pat t)"
proof -
  from assms have "{a, b} \<subseteq> set (occurrences pat t)" by (simp add: occurrences_iff)
  then have "card {a, b} \<le> card (set (occurrences pat t))"
    by (intro card_mono) simp_all
  moreover have "card {a, b} = 2" using assms(3) by simp
  moreover have "card (set (occurrences pat t)) = length (occurrences pat t)"
    by (simp add: distinct_card distinct_occurrences)
  ultimately show ?thesis by simp
qed

lemma take3_nth:
  assumes "take 3 (drop p t) = [a, b, c]"
  shows "p + 3 \<le> length t" and "t ! p = a" and "t ! (p + 1) = b" and "t ! (p + 2) = c"
proof -
  have "length (take 3 (drop p t)) = 3" using assms by simp
  then show len: "p + 3 \<le> length t" by (simp add: min_def split: if_splits)
  have nth: "take 3 (drop p t) ! k = t ! (p + k)" if "k < 3" for k
    using that len by simp
  from nth [of 0] assms show "t ! p = a" by simp
  from nth [of 1] assms show "t ! (p + 1) = b" by simp
  from nth [of 2] assms show "t ! (p + 2) = c" by simp
qed

lemma terminator_no_overlap:
  assumes "take 3 (drop p t) = terminator" and "take 3 (drop (p + d) t) = terminator"
    and "0 < d"
  shows "3 \<le> d"
proof (rule ccontr)
  assume "\<not> 3 \<le> d"
  with assms(3) consider "d = 1" | "d = 2" by arith
  then show False
  proof cases
    case 1
    from take3_nth(3) [OF assms(1) [unfolded terminator_def]]
      take3_nth(2) [OF assms(2) [unfolded terminator_def]] 1
    show False by simp
  next
    case 2
    from take3_nth(4) [OF assms(1) [unfolded terminator_def]]
      take3_nth(2) [OF assms(2) [unfolded terminator_def]] 2
    show False by simp
  qed
qed

section \<open>Facts about the tokenizer\<close>

lemma splitCourts_while_eq: "splitCourts_while t i acc = Some (splitCourts_loop t i acc)"
proof (induction t i acc rule: splitCourts_loop.induct)
  case (1 t i acc)
  show ?case
  proof (cases "indexOf t terminator i")
    case None
    then show ?thesis
      by (simp add: splitCourts_while.simps [of t i acc] splitCourts_loop.simps [of t i acc])
  next
    case (Some j)
    show ?thesis
    proof (cases "i < length t")
      case True
      with Some "1.IH" [of j] show ?thesis
        by (simp add: splitCourts_while.simps [of t i acc] splitCourts_loop.simps [of t i acc])
    next
      case False
      then show ?thesis
        by (simp add: splitCourts_while.simps [of t i acc] splitCourts_loop.simps [of t i acc])
    qed
  qed
qed

lemma splitCourts_lookahead_while_eq:
  "splitCourts_lookahead_while t i acc = Some (splitCourts_lookahead_loop t i acc)"
proof (induction t i acc rule: splitCourts_lookahead_loop.induct)
  case (1 t i acc)
  show ?case
  proof (cases "i < length t")
    case False
    then show ?thesis
      by (simp add: splitCourts_lookahead_while.simps [of t i acc]
            splitCourts_lookahead_loop.simps [of t i acc])
  next
    case True
    show ?thesis
    proof (cases "indexOf t terminator i")
      case None
      with True show ?thesis
        by (simp add: splitCourts_lookahead_while.simps [of t i acc]
              splitCourts_lookahead_loop.simps [of t i acc])
    next
      case (Some j)
      show ?thesis
      proof (cases "indexOf t terminator (j + 3)")
        case None
        with True Some show ?thesis
          by (simp add: splitCourts_lookahead_while.simps [of t i acc]
                splitCourts_lookahead_loop.simps [of t i acc])
      next
        case (Some k)
        with True \<open>indexOf t terminator i = Some j\<close> "1.IH" [of j "j + 3" k]
        show ?thesis
          by (simp add: splitCourts_lookahead_while.simps [of t i acc]
                splitCourts_lookahead_loop.simps [of t i acc] Let_def)
      qed
    qed
  qed
qed

lemma splitCourts_cursor_bounds:
  "i \<le> length t \<Longrightarrow> i \<le> splitCourts_cursor t i \<and> splitCourts_cursor t i \<le> length t"
proof (induction t i rule: splitCourts_cursor.induct)
  case (1 t i)
  show ?case
  proof (cases "i < length t")
    case False
    then have "splitCourts_cursor t i = i" by (simp add: splitCourts_cursor.simps [of t i])
    with "1.prems" show ?thesis by simp
  next
    case True
    show ?thesis
    proof (cases "indexOf t terminator i")
      case None
      with True show ?thesis by (simp add: splitCourts_cursor.simps [of t i])
    next
      case (Some j)
      from indexOf_terminator_bounds [OF Some True] have b: "i \<le> j" "j + 3 \<le> length t"
        by simp_all
      from "1.IH" [OF True Some b(2)] b True Some show ?thesis
        by (simp add: splitCourts_cursor.simps [of t i])
    qed
  qed
qed

lemma splitCourts_loop_concat:
  "i \<le> length t \<Longrightarrow>
     concat (splitCourts_loop t i acc)
       = concat acc @ take (splitCourts_cursor t i - i) (drop i t)"
proof (induction t i acc rule: splitCourts_loop.induct)
  case (1 t i acc)
  show ?case
  proof (cases "i < length t")
    case False
    then show ?thesis
      by (simp add: splitCourts_cursor.simps [of t i] splitCourts_loop.simps [of t i acc])
  next
    case True
    show ?thesis
    proof (cases "indexOf t terminator i")
      case None
      with True show ?thesis
        by (simp add: splitCourts_cursor.simps [of t i] splitCourts_loop.simps [of t i acc])
    next
      case (Some j)
      from indexOf_terminator_bounds [OF Some True] have b: "i \<le> j" "j + 3 \<le> length t"
        by simp_all
      let ?e = "splitCourts_cursor t (j + 3)"
      from splitCourts_cursor_bounds [OF b(2)] have e: "j + 3 \<le> ?e" "?e \<le> length t" by simp_all
      have sub: "substring t i (j + 3) = take (j + 3 - i) (drop i t)"
        using b True by (simp add: substring_def min_def max_def)
      have "take (j + 3 - i) (drop i t) @ take (?e - (j + 3)) (drop (j + 3) t)
              = take (?e - i) (drop i t)"
      proof -
        have "take (?e - i) (drop i t)
                = take (j + 3 - i) (drop i t) @ take (?e - i - (j + 3 - i)) (drop (j + 3 - i) (drop i t))"
          using e b by (metis add_diff_cancel_left' le_add_diff_inverse take_add diff_le_mono)
        also have "drop (j + 3 - i) (drop i t) = drop (j + 3) t" using b by simp
        also have "?e - i - (j + 3 - i) = ?e - (j + 3)" using b e by arith
        finally show ?thesis by simp
      qed
      with "1.IH" [of j, OF _ Some b(2)] True Some sub show ?thesis
        by (simp add: splitCourts_cursor.simps [of t i] splitCourts_loop.simps [of t i acc])
    qed
  qed
qed

lemma length_terminator: "length terminator = 3"
  by (simp add: terminator_def)

lemma indexOf_terminator_occ:
  "indexOf t terminator i = Some j \<Longrightarrow> i \<le> length t \<Longrightarrow> take 3 (drop j t) = terminator"
  using indexOf_Some(3) [of t terminator i j] by (simp add: length_terminator)

lemma splitCourts_cursor_stop:
  "i \<le> length t \<Longrightarrow>
     splitCourts_cursor t i = length t
     \<or> indexOf t terminator (splitCourts_cursor t i) = None"
proof (induction t i rule: splitCourts_cursor.induct)
  case (1 t i)
  show ?case
  proof (cases "i < length t")
    case False
    then have "splitCourts_cursor t i = i" by (simp add: splitCourts_cursor.simps [of t i])
    with "1.prems" False show ?thesis by simp
  next
    case True
    show ?thesis
    proof (cases "indexOf t terminator i")
      case None
      with True show ?thesis by (simp add: splitCourts_cursor.simps [of t i])
    next
      case (Some j)
      from indexOf_terminator_bounds [OF Some True] have b: "j + 3 \<le> length t" by simp
      from "1.IH" [OF True Some b] True Some show ?thesis
        by (simp add: splitCourts_cursor.simps [of t i])
    qed
  qed
qed

lemma splitCourts_cursor_after_terminator:
  "i \<le> length t \<Longrightarrow> i < splitCourts_cursor t i \<Longrightarrow>
     3 \<le> splitCourts_cursor t i
     \<and> take 3 (drop (splitCourts_cursor t i - 3) t) = terminator"
proof (induction t i rule: splitCourts_cursor.induct)
  case (1 t i)
  show ?case
  proof (cases "i < length t")
    case False
    then have "splitCourts_cursor t i = i" by (simp add: splitCourts_cursor.simps [of t i])
    with "1.prems" show ?thesis by simp
  next
    case True
    show ?thesis
    proof (cases "indexOf t terminator i")
      case None
      with True have "splitCourts_cursor t i = i"
        by (simp add: splitCourts_cursor.simps [of t i])
      with "1.prems" show ?thesis by simp
    next
      case (Some j)
      from indexOf_terminator_bounds [OF Some True] have b: "j + 3 \<le> length t" by simp
      have occ: "take 3 (drop j t) = terminator"
        using indexOf_terminator_occ [OF Some] True by simp
      have eq: "splitCourts_cursor t i = splitCourts_cursor t (j + 3)"
        using True Some by (simp add: splitCourts_cursor.simps [of t i])
      show ?thesis
      proof (cases "j + 3 < splitCourts_cursor t (j + 3)")
        case True
        with "1.IH" [OF \<open>i < length t\<close> Some b] eq show ?thesis by simp
      next
        case False
        with splitCourts_cursor_bounds [OF b] have "splitCourts_cursor t (j + 3) = j + 3"
          by simp
        with eq occ show ?thesis by simp
      qed
    qed
  qed
qed

lemma splitCourts_loop_grows:
  "i \<le> length t \<Longrightarrow> length acc < length (splitCourts_loop t i acc) \<Longrightarrow>
     i < splitCourts_cursor t i"
proof -
  assume i: "i \<le> length t" and len: "length acc < length (splitCourts_loop t i acc)"
  show ?thesis
  proof (cases "i < length t")
    case False
    with len show ?thesis by (simp add: splitCourts_loop.simps [of t i acc])
  next
    case True
    show ?thesis
    proof (cases "indexOf t terminator i")
      case None
      with True len show ?thesis by (simp add: splitCourts_loop.simps [of t i acc])
    next
      case (Some j)
      from indexOf_terminator_bounds [OF Some True] have b: "i \<le> j" "j + 3 \<le> length t"
        by simp_all
      from splitCourts_cursor_bounds [OF b(2)] b(1) True Some show ?thesis
        by (simp add: splitCourts_cursor.simps [of t i])
    qed
  qed
qed

lemma splitCourts_lookahead_loop_stop:
  "\<not> i < length t \<or> indexOf t terminator i = None \<Longrightarrow>
     splitCourts_lookahead_loop t i acc = acc"
  by (auto simp: splitCourts_lookahead_loop.simps [of t i acc])

lemma splitCourts_lookahead_loop_concat:
  "i < length t \<Longrightarrow> indexOf t terminator i = Some j \<Longrightarrow>
     concat (splitCourts_lookahead_loop t i acc) = concat acc @ drop i t"
proof (induction t i acc arbitrary: j rule: splitCourts_lookahead_loop.induct)
  case (1 t i acc)
  note i = \<open>i < length t\<close> and j = \<open>indexOf t terminator i = Some j\<close>
  from indexOf_terminator_bounds [OF j i] have b: "i \<le> j" "j + 3 \<le> length t"
    by simp_all
  show ?case
  proof (cases "indexOf t terminator (j + 3)")
    case None
    with i j show ?thesis
      by (simp add: splitCourts_lookahead_loop.simps [of t i acc] substring_from_def)
  next
    case (Some k)
    from indexOf_Some(1,2) [OF Some b(2)] have k: "j + 3 < length t"
      by (simp add: terminator_def)
    have sub: "substring t i (j + 3) = take (j + 3 - i) (drop i t)"
      using b i by (simp add: substring_def min_def max_def)
    have "take (j + 3 - i) (drop i t) @ drop (j + 3) t = drop i t"
    proof -
      have "drop (j + 3) t = drop (j + 3 - i) (drop i t)" using b by simp
      then show ?thesis by (simp only: append_take_drop_id)
    qed
    with "1.IH" [OF i j refl Some k Some] i j Some sub show ?thesis
      by (simp add: splitCourts_lookahead_loop.simps [of t i acc] Let_def)
  qed
qed

lemma not_contains_Nil_terminator: "\<not> contains [] terminator"
  by (simp add: contains_def occurrences_def terminator_def)

lemma not_contains_drop:
  assumes "indexOf t terminator e = None" and "e \<le> length t"
  shows "\<not> contains (drop e t) terminator"
proof
  assume "contains (drop e t) terminator"
  then have "hd (occurrences terminator (drop e t)) \<in> set (occurrences terminator (drop e t))"
    by (simp add: contains_def)
  then obtain i where "i \<in> set (occurrences terminator (drop e t))" ..
  then have "take (length terminator) (drop (e + i) t) = terminator"
    by (simp add: occurrences_iff add.commute)
  with indexOf_None [OF assms, of "e + i"] show False by simp
qed

lemma splitCourts_cursor_end_iff:
  assumes "0 < splitCourts_cursor t 0"
  shows "splitCourts_cursor t 0 = length t \<longleftrightarrow> endsWith t terminator"
proof
  let ?e = "splitCourts_cursor t 0"
  from splitCourts_cursor_after_terminator [of 0 t] assms
  have e: "3 \<le> ?e" "take 3 (drop (?e - 3) t) = terminator" by simp_all
  from splitCourts_cursor_bounds [of 0 t] have le: "?e \<le> length t" by simp
  {
    assume eq: "?e = length t"
    have A: "take 3 (drop (length t - 3) t) = terminator" using e(2) by (simp only: eq)
    have B: "take 3 (drop (length t - 3) t) = drop (length t - 3) t" by simp
    have "drop (length t - 3) t = terminator" using B [symmetric] A by (rule trans)
    moreover have "3 \<le> length t" using e(1) eq by simp
    ultimately show "endsWith t terminator"
      unfolding endsWith_def length_terminator by (intro conjI)
  }
  {
    assume "endsWith t terminator"
    then have n: "3 \<le> length t" "drop (length t - 3) t = terminator"
      by (simp_all add: endsWith_def length_terminator)
    then have last: "take 3 (drop (length t - 3) t) = terminator"
      by (simp add: terminator_def)
    show "?e = length t"
    proof (rule ccontr)
      assume ne: "?e \<noteq> length t"
      with splitCourts_cursor_stop [of 0 t] have none: "indexOf t terminator ?e = None"
        by simp
      have "length t - 3 < ?e"
      proof (rule ccontr)
        assume "\<not> length t - 3 < ?e"
        then have "?e \<le> length t - 3" by simp
        from indexOf_None [OF none le this] last show False
          by (simp add: length_terminator)
      qed
      moreover from ne le have "?e < length t" by simp
      ultimately have d: "0 < length t - ?e" "length t - ?e < 3"
        "?e - 3 + (length t - ?e) = length t - 3" using e(1) n(1) by arith+
      from terminator_no_overlap [OF e(2), of "length t - ?e"] last d show False by simp
    qed
  }
qed

lemma splitCourts_concat_cases:
  "(\<exists>rest. concat (splitCourts text) @ rest = text \<and> \<not> contains rest terminator)
   \<and> (concat (splitCourts text) = text
        \<longleftrightarrow> length (splitCourts text) = 1 \<or> endsWith text terminator)
   \<and> (concat (splitCourts_lookahead text) = text \<longleftrightarrow> text = [] \<or> contains text terminator)
   \<and> (\<not> contains text terminator \<longrightarrow> splitCourts_lookahead text = [])"
proof (intro conjI)
  let ?R = "splitCourts_loop text 0 []" and ?e = "splitCourts_cursor text 0"
  have cat: "concat ?R = take ?e text"
    using splitCourts_loop_concat [of 0 "text" "[]"] by simp
  from splitCourts_cursor_bounds [of 0 "text"] have le: "?e \<le> length text" by simp
  show "\<exists>rest. concat (splitCourts text) @ rest = text \<and> \<not> contains rest terminator"
  proof (cases "length ?R < 2")
    case True
    then have "concat (splitCourts text) @ [] = text" by (simp add: splitCourts_def)
    with not_contains_Nil_terminator show ?thesis by blast
  next
    case False
    then have "splitCourts text = ?R"
      unfolding splitCourts_def Let_def by (simp only: if_False)
    then have "concat (splitCourts text) @ drop ?e text = text"
      by (simp add: cat)
    moreover have "\<not> contains (drop ?e text) terminator"
      using splitCourts_cursor_stop [of 0 "text"] not_contains_drop [OF _ le]
        not_contains_Nil_terminator by auto
    ultimately show ?thesis by blast
  qed
  show "concat (splitCourts text) = text
          \<longleftrightarrow> length (splitCourts text) = 1 \<or> endsWith text terminator"
  proof (cases "length ?R < 2")
    case True
    then show ?thesis by (simp add: splitCourts_def)
  next
    case False
    then have "0 < length ?R" by arith
    then have "length ([] :: ustring list) < length ?R" by (simp only: list.size)
    from splitCourts_loop_grows [OF _ this] have pos: "0 < ?e" by simp
    have sc: "splitCourts text = ?R"
      using False unfolding splitCourts_def Let_def by (simp only: if_False)
    have "take ?e text = text \<longleftrightarrow> ?e = length text" using le by auto
    then have "concat (splitCourts text) = text \<longleftrightarrow> ?e = length text"
      by (simp only: sc cat)
    also have "\<dots> \<longleftrightarrow> endsWith text terminator" by (rule splitCourts_cursor_end_iff [OF pos])
    finally have "concat (splitCourts text) = text \<longleftrightarrow> endsWith text terminator" .
    moreover note sc
    moreover have "length ?R \<noteq> 1" using False by arith
    ultimately show ?thesis by (simp only: simp_thms)
  qed
  show "concat (splitCourts_lookahead text) = text \<longleftrightarrow> text = [] \<or> contains text terminator"
  proof (cases "indexOf text terminator 0")
    case None
    then have "splitCourts_lookahead text = []"
      by (simp add: splitCourts_lookahead_def splitCourts_lookahead_loop_stop)
    with None show ?thesis by (auto simp: contains_indexOf)
  next
    case (Some j)
    show ?thesis
    proof (cases "text = []")
      case True
      then show ?thesis
        by (simp add: splitCourts_lookahead_def splitCourts_lookahead_loop_stop)
    next
      case False
      then have "0 < length text" by simp
      from splitCourts_lookahead_loop_concat [OF this Some, of "[]"] Some show ?thesis
        by (simp add: splitCourts_lookahead_def contains_indexOf)
    qed
  qed
  show "\<not> contains text terminator \<longrightarrow> splitCourts_lookahead text = []"
    by (simp add: contains_indexOf splitCourts_lookahead_def splitCourts_lookahead_loop_stop)
qed

lemma splitCourts_at_most_one:
  "(length (occurrences terminator text) \<le> 1 \<longrightarrow> splitCourts text = [text])
   \<and> (length (occurrences terminator text) = 1 \<longrightarrow> splitCourts_lookahead text = [text])
   \<and> (occurrences terminator text = [] \<longrightarrow> splitCourts_lookahead text = [])"
proof (intro conjI impI)
  assume occ: "length (occurrences terminator text) \<le> 1"
  have "length (splitCourts_loop text 0 []) < 2"
  proof (cases "0 < length text")
    case False
    then have "splitCourts_loop text 0 [] = []"
      by (subst splitCourts_loop.simps) simp
    then show ?thesis by simp
  next
    case pos: True
    show ?thesis
    proof (cases "indexOf text terminator 0")
      case None
      then show ?thesis by (simp add: splitCourts_loop.simps [of "text" 0 "[]"])
    next
      case (Some j)
      let ?tok = "[substring text 0 (j + 3)]"
      have step: "splitCourts_loop text 0 [] = splitCourts_loop text (j + 3) ?tok"
        using pos Some by (simp add: splitCourts_loop.simps [of "text" 0 "[]"])
      from indexOf_terminator_bounds [OF Some pos] have b: "j + 3 \<le> length text" by simp
      have "splitCourts_loop text (j + 3) ?tok = ?tok"
      proof (cases "j + 3 < length text")
        case False
        then show ?thesis by (simp add: splitCourts_loop.simps [of "text" "j + 3" ?tok])
      next
        case True
        show ?thesis
        proof (cases "indexOf text terminator (j + 3)")
          case None
          then show ?thesis by (simp add: splitCourts_loop.simps [of "text" "j + 3" ?tok])
        next
          case (Some k)
          from indexOf_Some(1,2,3) [OF Some b] indexOf_Some(3) [OF \<open>indexOf text terminator 0 = Some j\<close>]
          have "2 \<le> length (occurrences terminator text)"
            by (intro two_occurrences [of terminator j "text" k]) simp_all
          with occ show ?thesis by simp
        qed
      qed
      with step show ?thesis by simp
    qed
  qed
  then show "splitCourts text = [text]" by (simp add: splitCourts_def)
next
  assume occ: "length (occurrences terminator text) = 1"
  then have "contains text terminator" by (auto simp: contains_def)
  then obtain j where j: "indexOf text terminator 0 = Some j"
    by (auto simp: contains_indexOf)
  have "j + length terminator \<le> length text" using indexOf_Some(2) [OF j] by simp
  then have pos: "0 < length text" unfolding length_terminator by arith
  from indexOf_terminator_bounds [OF j pos] have b: "j + 3 \<le> length text" by simp
  have "indexOf text terminator (j + 3) = None"
  proof (cases "indexOf text terminator (j + 3)")
    case (Some k)
    from indexOf_Some(1,2,3) [OF Some b] indexOf_Some(3) [OF j]
    have "2 \<le> length (occurrences terminator text)"
      by (intro two_occurrences [of terminator j "text" k]) simp_all
    with occ show ?thesis by simp
  qed simp
  with j pos show "splitCourts_lookahead text = [text]"
    by (simp add: splitCourts_lookahead_def splitCourts_lookahead_loop.simps [of "text" 0 "[]"]
          substring_from_def)
next
  assume "occurrences terminator text = []"
  then have "indexOf text terminator 0 = None"
    using contains_indexOf [of "text" terminator] by (simp add: contains_def)
  then show "splitCourts_lookahead text = []"
    by (simp add: splitCourts_lookahead_def splitCourts_lookahead_loop_stop)
qed

section \<open>Facts about cleanup, filter and sorting\<close>

lemma trim_id: "\<forall>c\<in>set s. \<not> is_whitespace c \<Longrightarrow> trim s = s"
proof -
  assume a: "\<forall>c\<in>set s. \<not> is_whitespace c"
  have dw: "dropWhile is_whitespace xs = xs" if "\<forall>c\<in>set xs. \<not> is_whitespace c" for xs
    using that by (cases xs) simp_all
  from a have "dropWhile is_whitespace s = s" by (rule dw)
  moreover from a have "dropWhile is_whitespace (rev s) = rev s" by (intro dw) simp
  ultimately show ?thesis by (simp add: trim_def)
qed

lemma final_cleanup_clean:
  "\<forall>c\<in>set (final_cleanup s). \<not> is_punctuation c \<and> \<not> is_whitespace c"
  by (simp add: final_cleanup_def)

lemma final_cleanup_id:
  assumes "\<forall>c\<in>set s. \<not> is_punctuation c \<and> \<not> is_whitespace c"
  shows "final_cleanup s = s"
proof -
  from assms have "trim s = s" by (intro trim_id) simp
  with assms show ?thesis by (simp add: final_cleanup_def filter_id_conv)
qed

lemma endsWith_iff_append: "endsWith s suffix \<longleftrightarrow> (\<exists>pre. s = pre @ suffix)"
proof
  assume "endsWith s suffix"
  then have "s = take (length s - length suffix) s @ suffix"
    by (metis append_take_drop_id endsWith_def)
  then show "\<exists>pre. s = pre @ suffix" ..
next
  assume "\<exists>pre. s = pre @ suffix"
  then show "endsWith s suffix" by (auto simp: endsWith_def)
qed

lemma contains_singleton: "contains s [c] \<longleftrightarrow> c \<in> set s"
  by (simp add: contains_iff_append in_set_conv_decomp)

lemma indexOf_None_iff: "indexOf s pat 0 = None \<longleftrightarrow> \<not> contains s pat"
  by (simp add: contains_indexOf)

lemma set_add_all_set: "set (set_add_all seen xs) = set seen \<union> set xs"
  by (induction xs arbitrary: seen) auto

lemma set_add_all_distinct: "distinct seen \<Longrightarrow> distinct (set_add_all seen xs)"
  by (induction xs arbitrary: seen) auto

lemma set_new_Set: "set (new_Set xs) = set xs"
  by (simp add: new_Set_def set_add_all_set)

lemma distinct_new_Set: "distinct (new_Set xs)"
  by (simp add: new_Set_def set_add_all_distinct)

lemma set_add_all_append:
  fixes seen xs :: "'a list"
  shows "set_add_all seen xs = seen @ set_add_all [] (filter (\<lambda>x. x \<notin> set seen) xs)"
proof (induction xs arbitrary: seen rule: length_induct)
  case (1 xs)
  show ?case
  proof (cases xs)
    case Nil
    then show ?thesis by simp
  next
    case (Cons x rest)
    have ih: "set_add_all acc ys = acc @ set_add_all [] (filter (\<lambda>y. y \<notin> set acc) ys)"
      if "length ys \<le> length rest" for acc ys :: "'a list"
      using "1.IH" [rule_format, of ys acc] that Cons by simp
    show ?thesis
    proof (cases "x \<in> set seen")
      case True
      with ih [of rest seen] Cons show ?thesis by simp
    next
      case False
      have "set_add_all seen xs = set_add_all (seen @ [x]) rest" using False Cons by simp
      also have "\<dots> = seen @ [x] @ set_add_all [] (filter (\<lambda>y. y \<notin> set (seen @ [x])) rest)"
        using ih [of rest "seen @ [x]"] by simp
      also have "filter (\<lambda>y. y \<notin> set (seen @ [x])) rest
                   = filter (\<lambda>y. y \<notin> set [x]) (filter (\<lambda>y. y \<notin> set seen) rest)"
        by (simp add: conj_commute)
      also have "[x] @ set_add_all [] (filter (\<lambda>y. y \<notin> set [x]) (filter (\<lambda>y. y \<notin> set seen) rest))
                   = set_add_all [x] (filter (\<lambda>y. y \<notin> set seen) rest)"
        using ih [of "filter (\<lambda>y. y \<notin> set seen) rest" "[x]"] by simp
      finally show ?thesis using False Cons by simp
    qed
  qed
qed

lemma new_Set_Cons: "new_Set (x # xs) = x # new_Set (filter (\<lambda>y. y \<noteq> x) xs)"
  using set_add_all_append [of "[x]" xs] by (simp add: new_Set_def)

lemma set_add_all_twice:
  "set_add_all seen (xs @ ys) = set_add_all (set_add_all seen xs) ys"
  by (induction xs arbitrary: seen) simp_all

lemma new_Set_append:
  "new_Set (xs @ ys) = new_Set xs @ new_Set (filter (\<lambda>y. y \<notin> set xs) ys)"
  using set_add_all_append [of "new_Set xs" ys]
  by (simp add: new_Set_def set_add_all_twice set_add_all_set)

lemma sorted_by_key_then_value:
  fixes ys :: "'a::linorder list"
  assumes "sorted (map f ys)" and "\<And>k. sorted (filter (\<lambda>y. f y = k) ys)"
  shows "sorted_wrt (\<lambda>a b. f a < f b \<or> (f a = f b \<and> a \<le> b)) ys"
  using assms
proof (induction ys)
  case Nil
  then show ?case by simp
next
  case (Cons y ys)
  have tail: "sorted_wrt (\<lambda>a b. f a < f b \<or> (f a = f b \<and> a \<le> b)) ys"
  proof (rule Cons.IH)
    show "sorted (map f ys)" using Cons.prems(1) by simp
    show "sorted (filter (\<lambda>y. f y = k) ys)" for k
      using Cons.prems(2) [of k] by (simp split: if_splits)
  qed
  have "f y < f b \<or> (f y = f b \<and> y \<le> b)" if b: "b \<in> set ys" for b
  proof (cases "f y = f b")
    case True
    from Cons.prems(2) [of "f y"] have "sorted (y # filter (\<lambda>z. f z = f y) ys)" by simp
    moreover from b True have "b \<in> set (filter (\<lambda>z. f z = f y) ys)" by simp
    ultimately show ?thesis using True by auto
  next
    case False
    moreover from Cons.prems(1) b have "f y \<le> f b" by simp
    ultimately show ?thesis by simp
  qed
  with tail show ?case by simp
qed

lemma aggregate_sorted:
  "sorted_wrt (\<lambda>a b. length a < length b \<or> (length a = length b \<and> a \<le> b)) (aggregate names)"
proof -
  let ?s = "sort (new_Set names)"
  have "sorted (map length (sort_key length ?s))" by (rule sorted_sort_key)
  moreover have "sorted (filter (\<lambda>y. length y = k) (sort_key length ?s))" for k
    by (simp only: sort_key_stable) (simp add: sorted_filter [where f = "\<lambda>x. x", simplified])
  ultimately show ?thesis
    unfolding aggregate_def Let_def by (rule sorted_by_key_then_value)
qed

lemma set_aggregate: "set (aggregate names) = set names"
  by (simp add: aggregate_def set_new_Set)

lemma distinct_aggregate: "distinct (aggregate names)"
  by (simp add: aggregate_def distinct_new_Set)

section \<open>Code units and code points\<close>

lemma codepoints_bmp:
  "\<forall>c\<in>set xs. \<not> is_high_surrogate c \<Longrightarrow> codepoints xs = map unat xs"
  by (induction xs rule: codepoints.induct) auto

lemma map_unat_less:
  fixes a b :: ustring
  shows "map unat a < map unat b \<longleftrightarrow> a < b"
proof (induction a arbitrary: b)
  case Nil
  then show ?case by (cases b) simp_all
next
  case (Cons x a)
  then show ?case by (cases b) (auto simp: word_less_nat_alt word_unat_eq_iff)
qed

lemma codepoints_less_bmp:
  assumes "\<forall>c\<in>set a. \<not> is_high_surrogate c" and "\<forall>c\<in>set b. \<not> is_high_surrogate c"
  shows "codepoints a < codepoints b \<longleftrightarrow> a < b"
  using assms by (simp add: codepoints_bmp map_unat_less)

section \<open>Facts about the crawl\<close>

lemma scrapePage_part000_nonempty:
  "snd (scrapePage_part000 env u) = Inr names \<Longrightarrow> [] \<notin> set names"
  by (auto simp: scrapePage_part000_def scrapePage_with_def set_aggregate
        scrape_lines_part000_def split: sum.splits if_splits option.splits)

lemma fst_scrapePage_with [simp]:
  "fst (scrapePage_with f env u) = [ConsoleLog (Fetching u)]"
  by (simp add: scrapePage_with_def)

lemma logged_errors_append [simp]:
  "logged_errors (a @ b) = logged_errors a @ logged_errors b"
  by (simp add: logged_errors_def)

lemma fetched_append [simp]: "fetched (a @ b) = fetched a @ fetched b"
  by (simp add: fetched_def)

lemma combined_files_append [simp]:
  "combined_files (a @ b) = combined_files a @ combined_files b"
  by (simp add: combined_files_def)

lemma scrapePages_loop_results:
  "i \<le> length urls \<Longrightarrow>
     fst (scrapePages_loop env urls delayMs i results trace)
       = results @ concat (map (\<lambda>u. case snd (scrapePage env u) of
                                 Inr names \<Rightarrow> [\<lparr>url = u, data = names\<rparr>] | Inl e \<Rightarrow> [])
                          (drop i urls))
     \<and> logged_errors (snd (scrapePages_loop env urls delayMs i results trace))
       = logged_errors trace
         @ concat (map (\<lambda>u. case snd (scrapePage env u) of Inr names \<Rightarrow> [] | Inl e \<Rightarrow> [e])
                     (drop i urls))
     \<and> fetched (snd (scrapePages_loop env urls delayMs i results trace))
       = fetched trace @ drop i urls
     \<and> combined_files (snd (scrapePages_loop env urls delayMs i results trace))
       = combined_files trace"
proof (induction env urls delayMs i results trace rule: scrapePages_loop.induct)
  case (1 env urls delayMs i results trace)
  show ?case
  proof (cases "i < length urls")
    case False
    then have "scrapePages_loop env urls delayMs i results trace = (results, trace)"
      by (subst scrapePages_loop.simps) simp
    with False "1.prems" show ?thesis by simp
  next
    case True
    then have d: "drop i urls = urls ! i # drop (Suc i) urls"
      by (simp add: Cons_nth_drop_Suc)
    from True have le: "i + 1 \<le> length urls" by simp
    note ih = "1.IH" [OF True refl refl refl refl refl le]
    show ?thesis
      apply (subst (1 2 3 4) scrapePages_loop.simps)
      apply (simp only: True if_True Let_def)
      apply (simp only: ih)
      apply (simp add: d scrapePage_def logged_errors_def fetched_def combined_files_def
               split: sum.splits)
      done
  qed
qed

lemma scrapePages_part000_loop_results:
  "i \<le> length urls \<Longrightarrow>
     fst (scrapePages_part000_loop env urls delayMs i results trace)
       = results @ concat (map (\<lambda>u. case snd (scrapePage_part000 env u) of
                                 Inr names \<Rightarrow> [\<lparr>url = u, data = names\<rparr>] | Inl e \<Rightarrow> [])
                          (drop i urls))
     \<and> logged_errors (snd (scrapePages_part000_loop env urls delayMs i results trace))
       = logged_errors trace
         @ concat (map (\<lambda>u. case snd (scrapePage_part000 env u) of Inr names \<Rightarrow> [] | Inl e \<Rightarrow> [e])
                     (drop i urls))
     \<and> fetched (snd (scrapePages_part000_loop env urls delayMs i results trace))
       = fetched trace @ drop i urls
     \<and> combined_files (snd (scrapePages_part000_loop env urls delayMs i results trace))
       = combined_files trace"
proof (induction env urls delayMs i results trace rule: scrapePages_part000_loop.induct)
  case (1 env urls delayMs i results trace)
  show ?case
  proof (cases "i < length urls")
    case False
    then have "scrapePages_part000_loop env urls delayMs i results trace = (results, trace)"
      by (subst scrapePages_part000_loop.simps) simp
    with False "1.prems" show ?thesis by simp
  next
    case True
    then have d: "drop i urls = urls ! i # drop (Suc i) urls"
      by (simp add: Cons_nth_drop_Suc)
    from True have le: "i + 1 \<le> length urls" by simp
    note ih = "1.IH" [OF True refl refl refl refl refl le]
    show ?thesis
      apply (subst (1 2 3 4) scrapePages_part000_loop.simps)
      apply (simp only: True if_True Let_def)
      apply (simp only: ih)
      apply (simp add: d scrapePage_part000_def logged_errors_def fetched_def combined_files_def
               split: sum.splits)
      done
  qed
qed
lemma snd_scrapePage_with:
  "snd (scrapePage_with f env u) =
     (case fetch env u of
        Inl e \<Rightarrow> Inl (ErrorIn u e)
      | Inr response \<Rightarrow>
          if \<not> ok response then Inl (ErrorIn u (HttpError (status response)))
          else (case parseFromString env (body response) of
                  None \<Rightarrow> Inl (ErrorIn u ParseFailed)
                | Some document \<Rightarrow> Inr (aggregate (f u document))))"
  by (simp add: scrapePage_with_def)

lemma failed_not_in_results:
  fixes scrape :: "ustring \<Rightarrow> error + ustring list"
  assumes "scrape u = Inl e"
  shows "u \<notin> set (map url (concat (map (\<lambda>u. case scrape u of
                          Inr names \<Rightarrow> [\<lparr>url = u, data = names\<rparr>] | Inl e \<Rightarrow> []) urls)))"
  using assms by (induction urls) (auto split: sum.splits)

lemma failed_in_errors:
  fixes scrape :: "ustring \<Rightarrow> error + ustring list"
  assumes "scrape u = Inl e" and "u \<in> set urls"
  shows "e \<in> set (concat (map (\<lambda>u. case scrape u of Inr names \<Rightarrow> [] | Inl e \<Rightarrow> [e]) urls))"
  using assms by (induction urls) (auto split: sum.splits)

lemma succeeded_in_results:
  fixes scrape :: "ustring \<Rightarrow> error + ustring list"
  assumes "scrape u = Inr names" and "u \<in> set urls"
  shows "\<lparr>url = u, data = names\<rparr>
           \<in> set (concat (map (\<lambda>u. case scrape u of
                          Inr names \<Rightarrow> [\<lparr>url = u, data = names\<rparr>] | Inl e \<Rightarrow> []) urls))"
  using assms by (induction urls) (auto split: sum.splits)

section \<open>Facts about the output files\<close>








section \<open>The claims\<close>

text \<open>
  Claim C10. \<open>splitCourts\<close> terminates on every input string: each iteration of the
  loop either exits or moves the cursor forward by at least the three code units of the
  terminator, and never beyond the end of the text. Stated for the loops of both
  scripts: the \<open>while\<close> loop returns, from every cursor and every accumulator, and
  its result is the one of the recursive function.
\<close>

theorem splitCourts_terminates:
  "splitCourts_while text currentIndex results
     = Some (splitCourts_loop text currentIndex results)
   \<and> splitCourts_lookahead_while text startPos found
     = Some (splitCourts_lookahead_loop text startPos found)
   \<and> (currentIndex < length text \<and> indexOf text terminator currentIndex = Some nextCourtEnd
        \<longrightarrow> currentIndex + 3 \<le> nextCourtEnd + 3 \<and> nextCourtEnd + 3 \<le> length text)"
  using splitCourts_while_eq splitCourts_lookahead_while_eq indexOf_terminator_bounds
  by auto

theorem splitCourts_terminates_witness:
  "0 < length (ascii ''A'' @ terminator @ ascii ''B'' @ terminator @ ascii ''C'')
   \<and> indexOf (ascii ''A'' @ terminator @ ascii ''B'' @ terminator @ ascii ''C'') terminator 0
       = Some 1
   \<and> 0 + 3 \<le> (1::nat) + 3
   \<and> 1 + 3 \<le> length (ascii ''A'' @ terminator @ ascii ''B'' @ terminator @ ascii ''C'')
   \<and> splitCourts_while (ascii ''A'' @ terminator @ ascii ''B'' @ terminator @ ascii ''C'') 0 []
       = Some [ascii ''A'' @ terminator, ascii ''B'' @ terminator]
   \<and> splitCourts_lookahead_while
         (ascii ''A'' @ terminator @ ascii ''B'' @ terminator @ ascii ''C'') 0 []
       = Some [ascii ''A'' @ terminator, ascii ''B'' @ terminator @ ascii ''C'']"
  using splitCourts_terminates
    [of "ascii ''A'' @ terminator @ ascii ''B'' @ terminator @ ascii ''C''" 0 "[]" 0 "[]" 1]
  by (simp add: ascii_def terminator_def indexOf_def substring_def substring_from_def
        splitCourts_loop.simps splitCourts_lookahead_loop.simps)

text \<open>
  Claim C1 does not hold of either script, and each script loses text where the other
  keeps it. With two courts in front of a branch name, \<open>splitCourts\<close> of
  \<^verbatim>\<open>main.ts\<close> returns the two courts and drops the branch name, which the look-ahead
  variant keeps in its last token; with one court in front, the guard of \<^verbatim>\<open>main.ts\<close>
  keeps the branch name too. Of a name without terminator the look-ahead variant returns
  no token at all, where \<^verbatim>\<open>main.ts\<close> returns the name. (Lemma
  \<open>splitCourts_concat_cases\<close> tells the inputs that are given back whole from the
  others.)
\<close>

theorem splitCourts_loses_text:
  "splitCourts (tokyo @ chiho @ terminator @ tokyo @ katei @ terminator @ tachikawa @ shibu)
     = [tokyo @ chiho @ terminator, tokyo @ katei @ terminator]
   \<and> concat (splitCourts (tokyo @ chiho @ terminator @ tokyo @ katei @ terminator @ tachikawa @ shibu))
     \<noteq> tokyo @ chiho @ terminator @ tokyo @ katei @ terminator @ tachikawa @ shibu
   \<and> concat (splitCourts_lookahead (tokyo @ chiho @ terminator @ tokyo @ katei @ terminator @ tachikawa @ shibu))
     = tokyo @ chiho @ terminator @ tokyo @ katei @ terminator @ tachikawa @ shibu
   \<and> concat (splitCourts (tokyo @ chiho @ terminator @ tachikawa @ shibu))
     = tokyo @ chiho @ terminator @ tachikawa @ shibu
   \<and> splitCourts_lookahead (tachikawa @ shibu) = []
   \<and> concat (splitCourts_lookahead (tachikawa @ shibu)) \<noteq> tachikawa @ shibu
   \<and> concat (splitCourts (tachikawa @ shibu)) = tachikawa @ shibu"
proof (intro conjI)
  show "splitCourts (tokyo @ chiho @ terminator @ tokyo @ katei @ terminator @ tachikawa @ shibu)
     = [tokyo @ chiho @ terminator, tokyo @ katei @ terminator]"
    by code_simp
  show "concat (splitCourts (tokyo @ chiho @ terminator @ tokyo @ katei @ terminator @ tachikawa @ shibu))
     \<noteq> tokyo @ chiho @ terminator @ tokyo @ katei @ terminator @ tachikawa @ shibu"
    by code_simp
  show "concat (splitCourts_lookahead (tokyo @ chiho @ terminator @ tokyo @ katei @ terminator @ tachikawa @ shibu))
     = tokyo @ chiho @ terminator @ tokyo @ katei @ terminator @ tachikawa @ shibu"
    by code_simp
  show "concat (splitCourts (tokyo @ chiho @ terminator @ tachikawa @ shibu))
     = tokyo @ chiho @ terminator @ tachikawa @ shibu"
    by code_simp
  show "splitCourts_lookahead (tachikawa @ shibu) = []"
    by code_simp
  show "concat (splitCourts_lookahead (tachikawa @ shibu)) \<noteq> tachikawa @ shibu"
    by code_simp
  show "concat (splitCourts (tachikawa @ shibu)) = tachikawa @ shibu"
    by code_simp
qed

theorem splitCourts_loses_text_witness:
  "concat (splitCourts (tokyo @ chiho @ terminator @ tokyo @ katei @ terminator @ tachikawa @ shibu))
     = tokyo @ chiho @ terminator @ tokyo @ katei @ terminator
   \<and> concat (splitCourts_lookahead (tachikawa @ shibu)) = []"
  using splitCourts_loses_text by simp

text \<open>
  Claim C2 holds of \<open>splitCourts\<close> of \<^verbatim>\<open>main.ts\<close> and, for an input with exactly
  one terminator, of the look-ahead variant (lemma \<open>splitCourts_at_most_one\<close>). It
  does not hold of the look-ahead variant for an input without terminator: for a branch
  name, which has no occurrence of the terminator and which the filter of the second
  script accepts, it returns the empty sequence, and the name is missing from the lines
  of the page.
\<close>

theorem splitCourts_lookahead_drops_name:
  "occurrences terminator (tachikawa @ shibu) = []
   \<and> splitCourts_lookahead (tachikawa @ shibu) = []
   \<and> splitCourts (tachikawa @ shibu) = [tachikawa @ shibu]
   \<and> candidate_filter_part000 [tachikawa @ shibu] = [tachikawa @ shibu]
   \<and> scrape_lines_part000 [tachikawa @ shibu] = []
   \<and> scrape_lines [tachikawa @ shibu] = [tachikawa @ shibu]"
proof (intro conjI)
  show "occurrences terminator (tachikawa @ shibu) = []" by code_simp
  show "splitCourts_lookahead (tachikawa @ shibu) = []" by code_simp
  show "splitCourts (tachikawa @ shibu) = [tachikawa @ shibu]" by code_simp
  show "candidate_filter_part000 [tachikawa @ shibu] = [tachikawa @ shibu]" by code_simp
  show "scrape_lines_part000 [tachikawa @ shibu] = []" by code_simp
  show "scrape_lines [tachikawa @ shibu] = [tachikawa @ shibu]" by code_simp
qed

theorem splitCourts_lookahead_drops_name_witness:
  "splitCourts_lookahead (tachikawa @ shibu) \<noteq> [tachikawa @ shibu]
   \<and> scrape_lines_part000 [tachikawa @ shibu] \<noteq> scrape_lines [tachikawa @ shibu]"
  using splitCourts_lookahead_drops_name by simp

text \<open>
  Claim C9. A string with no white space and none of the four punctuation marks is left
  as it is by the final cleanup; the final cleanup applied twice is the final cleanup
  applied once; and its result is always such a clean string.
\<close>

theorem final_cleanup_idempotent:
  "((\<forall>c\<in>set s. \<not> is_punctuation c \<and> \<not> is_whitespace c) \<longrightarrow> final_cleanup s = s)
   \<and> final_cleanup (final_cleanup s) = final_cleanup s
   \<and> (\<forall>c\<in>set (final_cleanup s). \<not> is_punctuation c \<and> \<not> is_whitespace c)"
  using final_cleanup_id [of s] final_cleanup_id [OF final_cleanup_clean, of s]
    final_cleanup_clean [of s] by blast

theorem final_cleanup_idempotent_witness:
  "list_all (\<lambda>c. \<not> is_punctuation c \<and> \<not> is_whitespace c) (tokyo @ chiho @ terminator)
   \<and> final_cleanup (tokyo @ chiho @ terminator) = tokyo @ chiho @ terminator
   \<and> final_cleanup ([0x20] @ tokyo @ [0x3000, nakaten] @ chiho @ terminator @ [0x0A])
       = tokyo @ chiho @ terminator
   \<and> final_cleanup
         (final_cleanup ([0x20] @ tokyo @ [0x3000, nakaten] @ chiho @ terminator @ [0x0A]))
       = tokyo @ chiho @ terminator"
proof -
  have clean: "list_all (\<lambda>c. \<not> is_punctuation c \<and> \<not> is_whitespace c)
                 (tokyo @ chiho @ terminator)"
    by code_simp
  have once: "final_cleanup ([0x20] @ tokyo @ [0x3000, nakaten] @ chiho @ terminator @ [0x0A])
                = tokyo @ chiho @ terminator"
    by code_simp
  from clean have "\<forall>c\<in>set (tokyo @ chiho @ terminator).
                     \<not> is_punctuation c \<and> \<not> is_whitespace c"
    by (simp only: list_all_iff)
  with final_cleanup_idempotent [of "tokyo @ chiho @ terminator", THEN conjunct1]
  have "final_cleanup (tokyo @ chiho @ terminator) = tokyo @ chiho @ terminator" by (rule mp)
  moreover from final_cleanup_idempotent
    [of "[0x20] @ tokyo @ [0x3000, nakaten] @ chiho @ terminator @ [0x0A]",
      THEN conjunct2, THEN conjunct1]
  have "final_cleanup
          (final_cleanup ([0x20] @ tokyo @ [0x3000, nakaten] @ chiho @ terminator @ [0x0A]))
        = tokyo @ chiho @ terminator"
    by (simp only: once)
  ultimately show ?thesis using clean once by (intro conjI)
qed

text \<open>
  Claim C6. A candidate passes the two filters exactly when it ends with the court or the
  branch suffix (in the second script also with the sub-office suffix), does not contain
  the marker U+5185 U+306E and does not contain a slash. The filters return the accepted
  candidates in their order and raise nothing.
\<close>

theorem candidate_filter_accepts:
  "(s \<in> set (candidate_filter candidates) \<longleftrightarrow>
      s \<in> set candidates
      \<and> ((\<exists>pre. s = pre @ terminator) \<or> (\<exists>pre. s = pre @ shibu))
      \<and> \<not> (\<exists>pre post. s = pre @ uchino @ post) \<and> 0x2F \<notin> set s)
   \<and> (s \<in> set (candidate_filter_part000 candidates) \<longleftrightarrow>
      s \<in> set candidates
      \<and> ((\<exists>pre. s = pre @ terminator) \<or> (\<exists>pre. s = pre @ shibu)
          \<or> (\<exists>pre. s = pre @ shutchojo))
      \<and> \<not> (\<exists>pre post. s = pre @ uchino @ post) \<and> 0x2F \<notin> set s)
   \<and> candidate_filter candidates
       = filter (\<lambda>s. (endsWith s terminator \<or> endsWith s shibu)
                     \<and> \<not> contains s uchino \<and> 0x2F \<notin> set s) candidates
   \<and> candidate_filter_part000 candidates
       = filter (\<lambda>s. (endsWith s terminator \<or> endsWith s shibu \<or> endsWith s shutchojo)
                     \<and> \<not> contains s uchino \<and> 0x2F \<notin> set s) candidates"
proof -
  have sl: "contains s slash \<longleftrightarrow> 0x2F \<in> set s" for s
    by (simp add: slash_def contains_singleton)
  have a: "candidate_filter candidates
       = filter (\<lambda>s. (endsWith s terminator \<or> endsWith s shibu)
                     \<and> \<not> contains s uchino \<and> 0x2F \<notin> set s) candidates"
    unfolding candidate_filter_def filter_filter
    by (rule filter_cong) (auto simp: sl indexOf_None_iff)
  have b: "candidate_filter_part000 candidates
       = filter (\<lambda>s. (endsWith s terminator \<or> endsWith s shibu \<or> endsWith s shutchojo)
                     \<and> \<not> contains s uchino \<and> 0x2F \<notin> set s) candidates"
    unfolding candidate_filter_part000_def filter_filter
    by (rule filter_cong) (auto simp: sl indexOf_None_iff)
  show ?thesis
    unfolding a b by (simp add: endsWith_iff_append contains_iff_append)
qed

theorem candidate_filter_accepts_witness:
  "candidate_filter
     [tokyo @ chiho @ terminator, ascii ''a/b'' @ shibu, terminator @ uchino @ shibu, tachikawa @ shutchojo, terminator @ ascii '' '']
     = [tokyo @ chiho @ terminator]
   \<and> candidate_filter_part000
     [tokyo @ chiho @ terminator, ascii ''a/b'' @ shibu, terminator @ uchino @ shibu, tachikawa @ shutchojo, terminator @ ascii '' '']
     = [tokyo @ chiho @ terminator, tachikawa @ shutchojo]
   \<and> tokyo @ chiho @ terminator \<in> set (candidate_filter
     [tokyo @ chiho @ terminator, ascii ''a/b'' @ shibu, terminator @ uchino @ shibu, tachikawa @ shutchojo, terminator @ ascii '' ''])"
proof -
  have a: "candidate_filter
     [tokyo @ chiho @ terminator, ascii ''a/b'' @ shibu, terminator @ uchino @ shibu, tachikawa @ shutchojo, terminator @ ascii '' '']
     = [tokyo @ chiho @ terminator]"
    by code_simp
  have b: "candidate_filter_part000
     [tokyo @ chiho @ terminator, ascii ''a/b'' @ shibu, terminator @ uchino @ shibu, tachikawa @ shutchojo, terminator @ ascii '' '']
     = [tokyo @ chiho @ terminator, tachikawa @ shutchojo]"
    by code_simp
  have m: "tokyo @ chiho @ terminator \<in> set
     [tokyo @ chiho @ terminator, ascii ''a/b'' @ shibu, terminator @ uchino @ shibu, tachikawa @ shutchojo, terminator @ ascii '' '']"
    by simp
  have e: "(\<exists>pre. tokyo @ chiho @ terminator = pre @ terminator)
            \<or> (\<exists>pre. tokyo @ chiho @ terminator = pre @ shibu)"
    by (rule disjI1) simp
  have u: "\<not> (\<exists>pre post. tokyo @ chiho @ terminator = pre @ uchino @ post)"
  proof -
    have "\<not> contains (tokyo @ chiho @ terminator) uchino" by code_simp
    then show ?thesis unfolding contains_iff_append .
  qed
  have sl: "0x2F \<notin> set (tokyo @ chiho @ terminator)" by code_simp
  have "tokyo @ chiho @ terminator \<in> set (candidate_filter
     [tokyo @ chiho @ terminator, ascii ''a/b'' @ shibu, terminator @ uchino @ shibu, tachikawa @ shutchojo, terminator @ ascii '' ''])"
    using candidate_filter_accepts [of "tokyo @ chiho @ terminator"
     "[tokyo @ chiho @ terminator, ascii ''a/b'' @ shibu, terminator @ uchino @ shibu, tachikawa @ shutchojo, terminator @ ascii '' '']", THEN conjunct1, THEN iffD2, OF conjI [OF m conjI [OF e conjI [OF u sl]]]] .
  with a b show ?thesis by (intro conjI)
qed

text \<open>
  Claim C5, as amended. For every list of names the aggregation yields each distinct name
  exactly once, ordered by ascending length (in code units), names of equal length in the
  lexicographic order of their UTF-16 code units, which is the order the default sort
  compares by. For names without surrogate pairs this is the lexicographic order of code
  points.
\<close>

theorem aggregate_dedup_sorted:
  "distinct (aggregate names) \<and> set (aggregate names) = set names
   \<and> sorted_wrt (\<lambda>a b. length a < length b \<or> (length a = length b \<and> a < b))
       (aggregate names)
   \<and> ((\<forall>name\<in>set names. \<forall>c\<in>set name. \<not> is_high_surrogate c) \<longrightarrow>
        sorted_wrt (\<lambda>a b. length a < length b
                      \<or> (length a = length b \<and> codepoints a < codepoints b))
          (aggregate names))"
proof -
  have units: "sorted_wrt (\<lambda>a b. length a < length b \<or> (length a = length b \<and> a < b))
          (aggregate names)"
    using aggregate_sorted [of names] distinct_aggregate [of names]
    by (auto simp: sorted_wrt_iff_nth_less distinct_conv_nth order_less_le)
  have points: "sorted_wrt (\<lambda>a b. length a < length b
                      \<or> (length a = length b \<and> codepoints a < codepoints b))
          (aggregate names)"
    if bmp: "\<forall>name\<in>set names. \<forall>c\<in>set name. \<not> is_high_surrogate c"
  proof (rule sorted_wrt_mono_rel [OF _ units])
    fix a b
    assume "a \<in> set (aggregate names)" and "b \<in> set (aggregate names)"
      and ab: "length a < length b \<or> (length a = length b \<and> a < b)"
    then have "a \<in> set names" "b \<in> set names" by (simp_all add: set_aggregate)
    with bmp have "codepoints a < codepoints b \<longleftrightarrow> a < b"
      by (intro codepoints_less_bmp) blast+
    with ab show "length a < length b \<or> (length a = length b \<and> codepoints a < codepoints b)"
      by simp
  qed
  from units points show ?thesis by (simp add: distinct_aggregate set_aggregate)
qed


theorem aggregate_dedup_sorted_witness:
  "list_all (\<lambda>name. list_all (\<lambda>c. \<not> is_high_surrogate c) name)
       [[0x7532] @ terminator, [0x4E19] @ terminator @ shibu,
        [0x4E59] @ terminator, [0x7532] @ terminator]
   \<and> aggregate
       [[0x7532] @ terminator, [0x4E19] @ terminator @ shibu,
        [0x4E59] @ terminator, [0x7532] @ terminator]
     = [[0x4E59] @ terminator, [0x7532] @ terminator, [0x4E19] @ terminator @ shibu]
   \<and> sorted_wrt (\<lambda>a b. length a < length b
                      \<or> (length a = length b \<and> codepoints a < codepoints b))
       (aggregate
       [[0x7532] @ terminator, [0x4E19] @ terminator @ shibu,
        [0x4E59] @ terminator, [0x7532] @ terminator])"
proof -
  have bmp: "list_all (\<lambda>name. list_all (\<lambda>c. \<not> is_high_surrogate c) name)
       [[0x7532] @ terminator, [0x4E19] @ terminator @ shibu,
        [0x4E59] @ terminator, [0x7532] @ terminator]"
    by code_simp
  have val: "aggregate
       [[0x7532] @ terminator, [0x4E19] @ terminator @ shibu,
        [0x4E59] @ terminator, [0x7532] @ terminator]
     = [[0x4E59] @ terminator, [0x7532] @ terminator, [0x4E19] @ terminator @ shibu]"
    by code_simp
  from bmp have "\<forall>name\<in>set
       [[0x7532] @ terminator, [0x4E19] @ terminator @ shibu,
        [0x4E59] @ terminator, [0x7532] @ terminator]. \<forall>c\<in>set name. \<not> is_high_surrogate c"
    by (simp only: list_all_iff)
  with aggregate_dedup_sorted [of
       "[[0x7532] @ terminator, [0x4E19] @ terminator @ shibu,
        [0x4E59] @ terminator, [0x7532] @ terminator]", THEN conjunct2, THEN conjunct2, THEN conjunct2]
  have "sorted_wrt (\<lambda>a b. length a < length b
                      \<or> (length a = length b \<and> codepoints a < codepoints b))
       (aggregate
       [[0x7532] @ terminator, [0x4E19] @ terminator @ shibu,
        [0x4E59] @ terminator, [0x7532] @ terminator])"
    by (rule mp)
  with bmp val show ?thesis by (intro conjI)
qed

text \<open>
  The claim as stated fails for code points beyond U+FFFF: the two names U+FF21 U+0041
  and U+1F600 (one code point, the two code units U+D83D U+DE00) have the same length, and
  the aggregation puts the second first, against the order of their code points.
\<close>

theorem aggregate_dedup_sorted_counterexample:
  "aggregate [[0xFF21, 0x41], [0xD83D, 0xDE00]] = [[0xD83D, 0xDE00], [0xFF21, 0x41]]
   \<and> length [0xD83D, 0xDE00 :: 16 word] = length [0xFF21, 0x41 :: 16 word]
   \<and> codepoints [0xFF21, 0x41] < codepoints [0xD83D, 0xDE00]"
proof (intro conjI)
  show "aggregate [[0xFF21, 0x41], [0xD83D, 0xDE00]] = [[0xD83D, 0xDE00], [0xFF21, 0x41]]"
    by code_simp
  show "length [0xD83D, 0xDE00 :: 16 word] = length [0xFF21, 0x41 :: 16 word]"
    by simp
  have "codepoints [0xFF21, 0x41] = [0xFF21, 0x41]"
    by (simp add: is_high_surrogate_def is_low_surrogate_def)
  moreover have "codepoints [0xD83D, 0xDE00] = [0x1F600]"
    by (simp add: is_high_surrogate_def is_low_surrogate_def)
  ultimately show "codepoints [0xFF21, 0x41] < codepoints [0xD83D, 0xDE00]"
    by simp
qed

text \<open>
  Claim C7. \<open>scrapePages\<close> returns, for every list of URLs: its results are the
  URLs whose \<open>scrapePage\<close> succeeded, in the order of the list, each with the names
  found; the errors it logs are those of the URLs that failed, in the same order; and a
  fetch is announced for every URL of the list, whatever happened to the ones before.
  A URL whose fetch throws, whose response has a status that is not a success, or whose
  body does not parse has no result, and if it is in the list its error is logged; a URL
  of the list whose page is fetched and parsed has a result with the names of that page.
  The same holds in the second script.
\<close>

theorem scrapePages_failure_isolation:
  "fst (scrapePages env urls delayMs)
     = concat (map (\<lambda>u. case snd (scrapePage env u) of
                          Inr names \<Rightarrow> [\<lparr>url = u, data = names\<rparr>] | Inl e \<Rightarrow> []) urls)
   \<and> map url (fst (scrapePages env urls delayMs))
     = filter (\<lambda>u. \<not> isl (snd (scrapePage env u))) urls
   \<and> logged_errors (snd (scrapePages env urls delayMs))
     = concat (map (\<lambda>u. case snd (scrapePage env u) of Inr names \<Rightarrow> [] | Inl e \<Rightarrow> [e]) urls)
   \<and> fetched (snd (scrapePages env urls delayMs)) = urls
   \<and> (fetch env u = Inl e \<longrightarrow>
        u \<notin> set (map url (fst (scrapePages env urls delayMs)))
        \<and> (u \<in> set urls \<longrightarrow>
             ErrorIn u e \<in> set (logged_errors (snd (scrapePages env urls delayMs)))))
   \<and> (fetch env u = Inr response \<and> \<not> ok response \<longrightarrow>
        u \<notin> set (map url (fst (scrapePages env urls delayMs)))
        \<and> (u \<in> set urls \<longrightarrow>
             ErrorIn u (HttpError (status response))
               \<in> set (logged_errors (snd (scrapePages env urls delayMs)))))
   \<and> (fetch env u = Inr response \<and> ok response
        \<and> parseFromString env (body response) = None \<longrightarrow>
        u \<notin> set (map url (fst (scrapePages env urls delayMs)))
        \<and> (u \<in> set urls \<longrightarrow>
             ErrorIn u ParseFailed \<in> set (logged_errors (snd (scrapePages env urls delayMs)))))
   \<and> (fetch env u = Inr response \<and> ok response
        \<and> parseFromString env (body response) = Some document \<and> u \<in> set urls \<longrightarrow>
        \<lparr>url = u, data = aggregate (scrape_lines (candidates_of document))\<rparr>
          \<in> set (fst (scrapePages env urls delayMs)))
   \<and> fst (scrapePages_part000 env urls delayMs)
     = concat (map (\<lambda>u. case snd (scrapePage_part000 env u) of
                          Inr names \<Rightarrow> [\<lparr>url = u, data = names\<rparr>] | Inl e \<Rightarrow> []) urls)
   \<and> map url (fst (scrapePages_part000 env urls delayMs))
     = filter (\<lambda>u. \<not> isl (snd (scrapePage_part000 env u))) urls
   \<and> logged_errors (snd (scrapePages_part000 env urls delayMs))
     = concat (map (\<lambda>u. case snd (scrapePage_part000 env u) of Inr names \<Rightarrow> [] | Inl e \<Rightarrow> [e]) urls)
   \<and> fetched (snd (scrapePages_part000 env urls delayMs)) = urls
   \<and> (fetch env u = Inl e \<longrightarrow>
        u \<notin> set (map url (fst (scrapePages_part000 env urls delayMs)))
        \<and> (u \<in> set urls \<longrightarrow>
             ErrorIn u e \<in> set (logged_errors (snd (scrapePages_part000 env urls delayMs)))))
   \<and> (fetch env u = Inr response \<and> \<not> ok response \<longrightarrow>
        u \<notin> set (map url (fst (scrapePages_part000 env urls delayMs)))
        \<and> (u \<in> set urls \<longrightarrow>
             ErrorIn u (HttpError (status response))
               \<in> set (logged_errors (snd (scrapePages_part000 env urls delayMs)))))
   \<and> (fetch env u = Inr response \<and> ok response
        \<and> parseFromString env (body response) = None \<longrightarrow>
        u \<notin> set (map url (fst (scrapePages_part000 env urls delayMs)))
        \<and> (u \<in> set urls \<longrightarrow>
             ErrorIn u ParseFailed \<in> set (logged_errors (snd (scrapePages_part000 env urls delayMs)))))
   \<and> (fetch env u = Inr response \<and> ok response
        \<and> parseFromString env (body response) = Some document \<and> u \<in> set urls \<longrightarrow>
        \<lparr>url = u, data = aggregate (scrape_lines_part000 (candidates_of_part000 u document))\<rparr>
          \<in> set (fst (scrapePages_part000 env urls delayMs)))"
proof -
  have m: "map url (concat (map (\<lambda>u. case r u of
                          Inr names \<Rightarrow> [\<lparr>url = u, data = names\<rparr>] | Inl e \<Rightarrow> []) us))
             = filter (\<lambda>u. \<not> isl (r u)) us" for r :: "ustring \<Rightarrow> error + ustring list" and us
    by (induction us) (auto split: sum.splits)
  have a: "fst (scrapePages env urls delayMs)
     = concat (map (\<lambda>u. case snd (scrapePage env u) of
                          Inr names \<Rightarrow> [\<lparr>url = u, data = names\<rparr>] | Inl e \<Rightarrow> []) urls)
   \<and> map url (fst (scrapePages env urls delayMs))
     = filter (\<lambda>u. \<not> isl (snd (scrapePage env u))) urls
   \<and> logged_errors (snd (scrapePages env urls delayMs))
     = concat (map (\<lambda>u. case snd (scrapePage env u) of Inr names \<Rightarrow> [] | Inl e \<Rightarrow> [e]) urls)
   \<and> fetched (snd (scrapePages env urls delayMs)) = urls
   \<and> (fetch env u = Inl e \<longrightarrow>
        u \<notin> set (map url (fst (scrapePages env urls delayMs)))
        \<and> (u \<in> set urls \<longrightarrow>
             ErrorIn u e \<in> set (logged_errors (snd (scrapePages env urls delayMs)))))
   \<and> (fetch env u = Inr response \<and> \<not> ok response \<longrightarrow>
        u \<notin> set (map url (fst (scrapePages env urls delayMs)))
        \<and> (u \<in> set urls \<longrightarrow>
             ErrorIn u (HttpError (status response))
               \<in> set (logged_errors (snd (scrapePages env urls delayMs)))))
   \<and> (fetch env u = Inr response \<and> ok response
        \<and> parseFromString env (body response) = None \<longrightarrow>
        u \<notin> set (map url (fst (scrapePages env urls delayMs)))
        \<and> (u \<in> set urls \<longrightarrow>
             ErrorIn u ParseFailed \<in> set (logged_errors (snd (scrapePages env urls delayMs)))))
   \<and> (fetch env u = Inr response \<and> ok response
        \<and> parseFromString env (body response) = Some document \<and> u \<in> set urls \<longrightarrow>
        \<lparr>url = u, data = aggregate (scrape_lines (candidates_of document))\<rparr>
          \<in> set (fst (scrapePages env urls delayMs)))"
  proof -
    have r: "fst (scrapePages env urls delayMs)
       = concat (map (\<lambda>u. case snd (scrapePage env u) of
                          Inr names \<Rightarrow> [\<lparr>url = u, data = names\<rparr>] | Inl e \<Rightarrow> []) urls)"
      and t: "logged_errors (snd (scrapePages env urls delayMs))
       = concat (map (\<lambda>u. case snd (scrapePage env u) of Inr names \<Rightarrow> [] | Inl e \<Rightarrow> [e]) urls)"
      and f: "fetched (snd (scrapePages env urls delayMs)) = urls"
      using scrapePages_loop_results [of 0 urls env delayMs "[]" "[]"]
      by (simp_all add: scrapePages_def logged_errors_def fetched_def)
    have out: "snd (scrapePage env u) =
       (case fetch env u of
          Inl e \<Rightarrow> Inl (ErrorIn u e)
        | Inr response \<Rightarrow>
            if \<not> ok response then Inl (ErrorIn u (HttpError (status response)))
            else (case parseFromString env (body response) of
                    None \<Rightarrow> Inl (ErrorIn u ParseFailed)
                  | Some document \<Rightarrow>
                      Inr (aggregate (scrape_lines (candidates_of document)))))"
      by (simp add: scrapePage_def snd_scrapePage_with)
    note no = failed_not_in_results [of "\<lambda>u. snd (scrapePage env u)" u _ urls, folded r]
      and er = failed_in_errors [of "\<lambda>u. snd (scrapePage env u)" u _ urls, folded t]
      and su = succeeded_in_results [of "\<lambda>u. snd (scrapePage env u)" u _ urls, folded r]
    show ?thesis
    proof (intro conjI impI)
      show "fst (scrapePages env urls delayMs)
       = concat (map (\<lambda>u. case snd (scrapePage env u) of
                          Inr names \<Rightarrow> [\<lparr>url = u, data = names\<rparr>] | Inl e \<Rightarrow> []) urls)"
        by (rule r)
      show "map url (fst (scrapePages env urls delayMs))
       = filter (\<lambda>u. \<not> isl (snd (scrapePage env u))) urls"
        by (simp only: r m)
      show "logged_errors (snd (scrapePages env urls delayMs))
       = concat (map (\<lambda>u. case snd (scrapePage env u) of Inr names \<Rightarrow> [] | Inl e \<Rightarrow> [e]) urls)"
        by (rule t)
      show "fetched (snd (scrapePages env urls delayMs)) = urls" by (rule f)
    next
      assume "fetch env u = Inl e"
      then have "snd (scrapePage env u) = Inl (ErrorIn u e)" by (simp add: out)
      then show "u \<notin> set (map url (fst (scrapePages env urls delayMs)))" by (rule no)
    next
      assume "fetch env u = Inl e" and "u \<in> set urls"
      then have "snd (scrapePage env u) = Inl (ErrorIn u e)" "u \<in> set urls"
        by (simp_all add: out)
      then show "ErrorIn u e \<in> set (logged_errors (snd (scrapePages env urls delayMs)))"
        by (rule er)
    next
      assume "fetch env u = Inr response \<and> \<not> ok response"
      then have "snd (scrapePage env u) = Inl (ErrorIn u (HttpError (status response)))"
        by (simp add: out)
      then show "u \<notin> set (map url (fst (scrapePages env urls delayMs)))" by (rule no)
    next
      assume "fetch env u = Inr response \<and> \<not> ok response" and "u \<in> set urls"
      then have "snd (scrapePage env u) = Inl (ErrorIn u (HttpError (status response)))"
        "u \<in> set urls"
        by (simp_all add: out)
      then show "ErrorIn u (HttpError (status response))
                   \<in> set (logged_errors (snd (scrapePages env urls delayMs)))"
        by (rule er)
    next
      assume "fetch env u = Inr response \<and> ok response
                \<and> parseFromString env (body response) = None"
      then have "snd (scrapePage env u) = Inl (ErrorIn u ParseFailed)" by (simp add: out)
      then show "u \<notin> set (map url (fst (scrapePages env urls delayMs)))" by (rule no)
    next
      assume "fetch env u = Inr response \<and> ok response
                \<and> parseFromString env (body response) = None" and "u \<in> set urls"
      then have "snd (scrapePage env u) = Inl (ErrorIn u ParseFailed)" "u \<in> set urls"
        by (simp_all add: out)
      then show "ErrorIn u ParseFailed
                   \<in> set (logged_errors (snd (scrapePages env urls delayMs)))"
        by (rule er)
    next
      assume "fetch env u = Inr response \<and> ok response
                \<and> parseFromString env (body response) = Some document \<and> u \<in> set urls"
      then have "snd (scrapePage env u) = Inr (aggregate (scrape_lines (candidates_of document)))" "u \<in> set urls"
        by (simp_all add: out)
      then show "\<lparr>url = u, data = aggregate (scrape_lines (candidates_of document))\<rparr>
                   \<in> set (fst (scrapePages env urls delayMs))"
        by (rule su)
    qed
  qed
  have b: "fst (scrapePages_part000 env urls delayMs)
     = concat (map (\<lambda>u. case snd (scrapePage_part000 env u) of
                          Inr names \<Rightarrow> [\<lparr>url = u, data = names\<rparr>] | Inl e \<Rightarrow> []) urls)
   \<and> map url (fst (scrapePages_part000 env urls delayMs))
     = filter (\<lambda>u. \<not> isl (snd (scrapePage_part000 env u))) urls
   \<and> logged_errors (snd (scrapePages_part000 env urls delayMs))
     = concat (map (\<lambda>u. case snd (scrapePage_part000 env u) of Inr names \<Rightarrow> [] | Inl e \<Rightarrow> [e]) urls)
   \<and> fetched (snd (scrapePages_part000 env urls delayMs)) = urls
   \<and> (fetch env u = Inl e \<longrightarrow>
        u \<notin> set (map url (fst (scrapePages_part000 env urls delayMs)))
        \<and> (u \<in> set urls \<longrightarrow>
             ErrorIn u e \<in> set (logged_errors (snd (scrapePages_part000 env urls delayMs)))))
   \<and> (fetch env u = Inr response \<and> \<not> ok response \<longrightarrow>
        u \<notin> set (map url (fst (scrapePages_part000 env urls delayMs)))
        \<and> (u \<in> set urls \<longrightarrow>
             ErrorIn u (HttpError (status response))
               \<in> set (logged_errors (snd (scrapePages_part000 env urls delayMs)))))
   \<and> (fetch env u = Inr response \<and> ok response
        \<and> parseFromString env (body response) = None \<longrightarrow>
        u \<notin> set (map url (fst (scrapePages_part000 env urls delayMs)))
        \<and> (u \<in> set urls \<longrightarrow>
             ErrorIn u ParseFailed \<in> set (logged_errors (snd (scrapePages_part000 env urls delayMs)))))
   \<and> (fetch env u = Inr response \<and> ok response
        \<and> parseFromString env (body response) = Some document \<and> u \<in> set urls \<longrightarrow>
        \<lparr>url = u, data = aggregate (scrape_lines_part000 (candidates_of_part000 u document))\<rparr>
          \<in> set (fst (scrapePages_part000 env urls delayMs)))"
  proof -
    have r: "fst (scrapePages_part000 env urls delayMs)
       = concat (map (\<lambda>u. case snd (scrapePage_part000 env u) of
                          Inr names \<Rightarrow> [\<lparr>url = u, data = names\<rparr>] | Inl e \<Rightarrow> []) urls)"
      and t: "logged_errors (snd (scrapePages_part000 env urls delayMs))
       = concat (map (\<lambda>u. case snd (scrapePage_part000 env u) of Inr names \<Rightarrow> [] | Inl e \<Rightarrow> [e]) urls)"
      and f: "fetched (snd (scrapePages_part000 env urls delayMs)) = urls"
      using scrapePages_part000_loop_results [of 0 urls env delayMs "[]" "[]"]
      by (simp_all add: scrapePages_part000_def logged_errors_def fetched_def)
    have out: "snd (scrapePage_part000 env u) =
       (case fetch env u of
          Inl e \<Rightarrow> Inl (ErrorIn u e)
        | Inr response \<Rightarrow>
            if \<not> ok response then Inl (ErrorIn u (HttpError (status response)))
            else (case parseFromString env (body response) of
                    None \<Rightarrow> Inl (ErrorIn u ParseFailed)
                  | Some document \<Rightarrow>
                      Inr (aggregate (scrape_lines_part000 (candidates_of_part000 u document)))))"
      by (simp add: scrapePage_part000_def snd_scrapePage_with)
    note no = failed_not_in_results [of "\<lambda>u. snd (scrapePage_part000 env u)" u _ urls, folded r]
      and er = failed_in_errors [of "\<lambda>u. snd (scrapePage_part000 env u)" u _ urls, folded t]
      and su = succeeded_in_results [of "\<lambda>u. snd (scrapePage_part000 env u)" u _ urls, folded r]
    show ?thesis
    proof (intro conjI impI)
      show "fst (scrapePages_part000 env urls delayMs)
       = concat (map (\<lambda>u. case snd (scrapePage_part000 env u) of
                          Inr names \<Rightarrow> [\<lparr>url = u, data = names\<rparr>] | Inl e \<Rightarrow> []) urls)"
        by (rule r)
      show "map url (fst (scrapePages_part000 env urls delayMs))
       = filter (\<lambda>u. \<not> isl (snd (scrapePage_part000 env u))) urls"
        by (simp only: r m)
      show "logged_errors (snd (scrapePages_part000 env urls delayMs))
       = concat (map (\<lambda>u. case snd (scrapePage_part000 env u) of Inr names \<Rightarrow> [] | Inl e \<Rightarrow> [e]) urls)"
        by (rule t)
      show "fetched (snd (scrapePages_part000 env urls delayMs)) = urls" by (rule f)
    next
      assume "fetch env u = Inl e"
      then have "snd (scrapePage_part000 env u) = Inl (ErrorIn u e)" by (simp add: out)
      then show "u \<notin> set (map url (fst (scrapePages_part000 env urls delayMs)))" by (rule no)
    next
      assume "fetch env u = Inl e" and "u \<in> set urls"
      then have "snd (scrapePage_part000 env u) = Inl (ErrorIn u e)" "u \<in> set urls"
        by (simp_all add: out)
      then show "ErrorIn u e \<in> set (logged_errors (snd (scrapePages_part000 env urls delayMs)))"
        by (rule er)
    next
      assume "fetch env u = Inr response \<and> \<not> ok response"
      then have "snd (scrapePage_part000 env u) = Inl (ErrorIn u (HttpError (status response)))"
        by (simp add: out)
      then show "u \<notin> set (map url (fst (scrapePages_part000 env urls delayMs)))" by (rule no)
    next
      assume "fetch env u = Inr response \<and> \<not> ok response" and "u \<in> set urls"
      then have "snd (scrapePage_part000 env u) = Inl (ErrorIn u (HttpError (status response)))"
        "u \<in> set urls"
        by (simp_all add: out)
      then show "ErrorIn u (HttpError (status response))
                   \<in> set (logged_errors (snd (scrapePages_part000 env urls delayMs)))"
        by (rule er)
    next
      assume "fetch env u = Inr response \<and> ok response
                \<and> parseFromString env (body response) = None"
      then have "snd (scrapePage_part000 env u) = Inl (ErrorIn u ParseFailed)" by (simp add: out)
      then show "u \<notin> set (map url (fst (scrapePages_part000 env urls delayMs)))" by (rule no)
    next
      assume "fetch env u = Inr response \<and> ok response
                \<and> parseFromString env (body response) = None" and "u \<in> set urls"
      then have "snd (scrapePage_part000 env u) = Inl (ErrorIn u ParseFailed)" "u \<in> set urls"
        by (simp_all add: out)
      then show "ErrorIn u ParseFailed
                   \<in> set (logged_errors (snd (scrapePages_part000 env urls delayMs)))"
        by (rule er)
    next
      assume "fetch env u = Inr response \<and> ok response
                \<and> parseFromString env (body response) = Some document \<and> u \<in> set urls"
      then have "snd (scrapePage_part000 env u) = Inr (aggregate (scrape_lines_part000 (candidates_of_part000 u document)))" "u \<in> set urls"
        by (simp_all add: out)
      then show "\<lparr>url = u, data = aggregate (scrape_lines_part000 (candidates_of_part000 u document))\<rparr>
                   \<in> set (fst (scrapePages_part000 env urls delayMs))"
        by (rule su)
    qed
  qed
  from a b show ?thesis by (elim conjE) (intro conjI; assumption)
qed

theorem scrapePages_failure_isolation_witness:
  "fst (scrapePages faulty_env
          [ascii ''a'', ascii ''busy'', ascii ''broken'', ascii ''down'', ascii ''c''] 3000)
     = [\<lparr>url = ascii ''a'', data = [tokyo @ chiho @ terminator]\<rparr>,
        \<lparr>url = ascii ''c'', data = [tokyo @ chiho @ terminator]\<rparr>]
   \<and> logged_errors (snd (scrapePages faulty_env
          [ascii ''a'', ascii ''busy'', ascii ''broken'', ascii ''down'', ascii ''c''] 3000))
     = [ErrorIn (ascii ''busy'') (HttpError 503), ErrorIn (ascii ''broken'') ParseFailed,
        ErrorIn (ascii ''down'') NetworkError]
   \<and> fetched (snd (scrapePages faulty_env
          [ascii ''a'', ascii ''busy'', ascii ''broken'', ascii ''down'', ascii ''c''] 3000))
     = [ascii ''a'', ascii ''busy'', ascii ''broken'', ascii ''down'', ascii ''c'']
   \<and> fst (scrapePages_part000 faulty_env
          [ascii ''a'', ascii ''busy'', ascii ''broken'', ascii ''down'', ascii ''c''] 3000)
     = [\<lparr>url = ascii ''a'', data = [tokyo @ chiho @ terminator]\<rparr>,
        \<lparr>url = ascii ''c'', data = [tokyo @ chiho @ terminator]\<rparr>]
   \<and> logged_errors (snd (scrapePages_part000 faulty_env
          [ascii ''a'', ascii ''busy'', ascii ''broken'', ascii ''down'', ascii ''c''] 3000))
     = [ErrorIn (ascii ''busy'') (HttpError 503), ErrorIn (ascii ''broken'') ParseFailed,
        ErrorIn (ascii ''down'') NetworkError]
   \<and> fetched (snd (scrapePages_part000 faulty_env
          [ascii ''a'', ascii ''busy'', ascii ''broken'', ascii ''down'', ascii ''c''] 3000))
     = [ascii ''a'', ascii ''busy'', ascii ''broken'', ascii ''down'', ascii ''c'']
   \<and> fetch faulty_env (ascii ''busy'') = Inr \<lparr>ok = False, status = 503, body = []\<rparr>
   \<and> ascii ''busy'' \<notin> set (map url (fst (scrapePages faulty_env
          [ascii ''a'', ascii ''busy'', ascii ''broken'', ascii ''down'', ascii ''c''] 3000)))
   \<and> fetch faulty_env (ascii ''broken'')
       = Inr \<lparr>ok = True, status = 200, body = ascii ''<''\<rparr>
   \<and> parseFromString faulty_env (ascii ''<'') = None
   \<and> ascii ''broken'' \<notin> set (map url (fst (scrapePages faulty_env
          [ascii ''a'', ascii ''busy'', ascii ''broken'', ascii ''down'', ascii ''c''] 3000)))"
proof -
  have ok_scrapePage: "snd (scrapePage faulty_env (ascii ''a'')) = Inr [tokyo @ chiho @ terminator]"
    "snd (scrapePage faulty_env (ascii ''c'')) = Inr [tokyo @ chiho @ terminator]"
    by code_simp+
  have bad_scrapePage: "snd (scrapePage faulty_env (ascii ''busy''))
                = Inl (ErrorIn (ascii ''busy'') (HttpError 503))"
    "snd (scrapePage faulty_env (ascii ''broken''))
                = Inl (ErrorIn (ascii ''broken'') ParseFailed)"
    "snd (scrapePage faulty_env (ascii ''down''))
                = Inl (ErrorIn (ascii ''down'') NetworkError)"
    by code_simp+
  have ok_scrapePage_part000: "snd (scrapePage_part000 faulty_env (ascii ''a'')) = Inr [tokyo @ chiho @ terminator]"
    "snd (scrapePage_part000 faulty_env (ascii ''c'')) = Inr [tokyo @ chiho @ terminator]"
    by code_simp+
  have bad_scrapePage_part000: "snd (scrapePage_part000 faulty_env (ascii ''busy''))
                = Inl (ErrorIn (ascii ''busy'') (HttpError 503))"
    "snd (scrapePage_part000 faulty_env (ascii ''broken''))
                = Inl (ErrorIn (ascii ''broken'') ParseFailed)"
    "snd (scrapePage_part000 faulty_env (ascii ''down''))
                = Inl (ErrorIn (ascii ''down'') NetworkError)"
    by code_simp+
  note inst = scrapePages_failure_isolation
      [of faulty_env "[ascii ''a'', ascii ''busy'', ascii ''broken'', ascii ''down'', ascii ''c'']" 3000]
  have m1: "fst (scrapePages faulty_env
          [ascii ''a'', ascii ''busy'', ascii ''broken'', ascii ''down'', ascii ''c''] 3000)
     = [\<lparr>url = ascii ''a'', data = [tokyo @ chiho @ terminator]\<rparr>,
        \<lparr>url = ascii ''c'', data = [tokyo @ chiho @ terminator]\<rparr>]
   \<and> logged_errors (snd (scrapePages faulty_env
          [ascii ''a'', ascii ''busy'', ascii ''broken'', ascii ''down'', ascii ''c''] 3000))
     = [ErrorIn (ascii ''busy'') (HttpError 503), ErrorIn (ascii ''broken'') ParseFailed,
        ErrorIn (ascii ''down'') NetworkError]
   \<and> fetched (snd (scrapePages faulty_env
          [ascii ''a'', ascii ''busy'', ascii ''broken'', ascii ''down'', ascii ''c''] 3000))
     = [ascii ''a'', ascii ''busy'', ascii ''broken'', ascii ''down'', ascii ''c'']"
    using inst by (simp add: ok_scrapePage bad_scrapePage)
  have m2: "fst (scrapePages_part000 faulty_env
          [ascii ''a'', ascii ''busy'', ascii ''broken'', ascii ''down'', ascii ''c''] 3000)
     = [\<lparr>url = ascii ''a'', data = [tokyo @ chiho @ terminator]\<rparr>,
        \<lparr>url = ascii ''c'', data = [tokyo @ chiho @ terminator]\<rparr>]
   \<and> logged_errors (snd (scrapePages_part000 faulty_env
          [ascii ''a'', ascii ''busy'', ascii ''broken'', ascii ''down'', ascii ''c''] 3000))
     = [ErrorIn (ascii ''busy'') (HttpError 503), ErrorIn (ascii ''broken'') ParseFailed,
        ErrorIn (ascii ''down'') NetworkError]
   \<and> fetched (snd (scrapePages_part000 faulty_env
          [ascii ''a'', ascii ''busy'', ascii ''broken'', ascii ''down'', ascii ''c''] 3000))
     = [ascii ''a'', ascii ''busy'', ascii ''broken'', ascii ''down'', ascii ''c'']"
    using inst by (simp add: ok_scrapePage_part000 bad_scrapePage_part000)
  have fb: "fetch faulty_env (ascii ''busy'') = Inr \<lparr>ok = False, status = 503, body = []\<rparr>"
    by (simp add: faulty_env_def ascii_def)
  have fk: "fetch faulty_env (ascii ''broken'')
              = Inr \<lparr>ok = True, status = 200, body = ascii ''<''\<rparr>"
    by (simp add: faulty_env_def ascii_def)
  have pk: "parseFromString faulty_env (ascii ''<'') = None"
    by (simp add: faulty_env_def ascii_def)
  have pb: "fetch faulty_env (ascii ''busy'') = Inr \<lparr>ok = False, status = 503, body = []\<rparr>
              \<and> \<not> ok \<lparr>ok = False, status = 503, body = []\<rparr>"
    using fb by simp
  have nb: "ascii ''busy'' \<notin> set (map url (fst (scrapePages faulty_env
          [ascii ''a'', ascii ''busy'', ascii ''broken'', ascii ''down'', ascii ''c''] 3000)))"
    using scrapePages_failure_isolation
      [where env = faulty_env and delayMs = 3000 and u = "ascii ''busy''"
         and response = "\<lparr>ok = False, status = 503, body = []\<rparr>"
         and urls = "[ascii ''a'', ascii ''busy'', ascii ''broken'', ascii ''down'', ascii ''c'']",
       THEN conjunct2, THEN conjunct2, THEN conjunct2, THEN conjunct2, THEN conjunct2,
       THEN conjunct1, THEN mp, OF pb]
    by (rule conjunct1)
  have pp: "fetch faulty_env (ascii ''broken'')
              = Inr \<lparr>ok = True, status = 200, body = ascii ''<''\<rparr>
            \<and> ok \<lparr>ok = True, status = 200, body = ascii ''<''\<rparr>
            \<and> parseFromString faulty_env
                  (body \<lparr>ok = True, status = 200, body = ascii ''<''\<rparr>) = None"
    using fk pk by simp
  have nk: "ascii ''broken'' \<notin> set (map url (fst (scrapePages faulty_env
          [ascii ''a'', ascii ''busy'', ascii ''broken'', ascii ''down'', ascii ''c''] 3000)))"
    using scrapePages_failure_isolation
      [where env = faulty_env and delayMs = 3000 and u = "ascii ''broken''"
         and response = "\<lparr>ok = True, status = 200, body = ascii ''<''\<rparr>"
         and urls = "[ascii ''a'', ascii ''busy'', ascii ''broken'', ascii ''down'', ascii ''c'']",
       THEN conjunct2, THEN conjunct2, THEN conjunct2, THEN conjunct2, THEN conjunct2,
       THEN conjunct2, THEN conjunct1, THEN mp, OF pp]
    by (rule conjunct1)
  from m1 m2 fb nb fk pk nk show ?thesis by (elim conjE) (intro conjI; assumption)
qed

text \<open>
  Claim C4 does not hold of \<^verbatim>\<open>main.ts\<close>, which has no filter behind the final
  cleanup: for a page whose one link reads U+FF0C U+30FB U+7ACB U+5DDD U+652F U+90E8, the
  middle dot cuts off a line that holds the comma only, the cleanup empties it, and the
  empty string is the first name of the result. The second script filters the empty
  strings out (lemma \<open>scrapePage_part000_nonempty\<close>).
\<close>

theorem scrapePage_keeps_empty_name:
  "snd (scrapePage (sample_env (sample_page [] ([0xFF0C, nakaten] @ tachikawa @ shibu)) True)
          (ascii ''u''))
     = Inr [[], tachikawa @ shibu]"
  by code_simp

theorem scrapePage_keeps_empty_name_witness:
  "[] \<in> set (projr (snd (scrapePage
       (sample_env (sample_page [] ([0xFF0C, nakaten] @ tachikawa @ shibu)) True)
       (ascii ''u''))))"
  using scrapePage_keeps_empty_name by simp

text \<open>
  Claim C3, as amended. The combined data hold exactly the names of the per-URL lists, in
  the order in which they first appear (the results in their order, each list in its
  own); they are not sorted again. In the second script, which passes them through a set,
  no name occurs twice: the names of the first result come first, then those names of the
  other results that the first result does not have.
\<close>

theorem allData_union:
  "set (allData results) = (\<Union>result\<in>set results. set (data result))
   \<and> new_Set (allData results) = allData_part000 results
   \<and> distinct (allData_part000 results)
   \<and> set (allData_part000 results) = (\<Union>result\<in>set results. set (data result))
   \<and> allData_part000 (result # results)
       = new_Set (data result)
         @ new_Set (filter (\<lambda>name. name \<notin> set (data result)) (allData results))"
  by (simp add: allData_def allData_part000_def set_new_Set distinct_new_Set new_Set_append)

theorem allData_union_witness:
  "new_Set (allData [\<lparr>url = ascii ''a'', data = [tokyo @ chiho @ terminator]\<rparr>,
                     \<lparr>url = ascii ''c'', data = [tokyo @ chiho @ terminator]\<rparr>])
     = [tokyo @ chiho @ terminator]
   \<and> allData_part000 [\<lparr>url = ascii ''a'', data = [tokyo @ chiho @ terminator]\<rparr>,
                      \<lparr>url = ascii ''c'', data = [tokyo @ chiho @ terminator]\<rparr>]
     = [tokyo @ chiho @ terminator]"
proof -
  have "allData_part000 [\<lparr>url = ascii ''a'', data = [tokyo @ chiho @ terminator]\<rparr>,
                      \<lparr>url = ascii ''c'', data = [tokyo @ chiho @ terminator]\<rparr>]
     = [tokyo @ chiho @ terminator]"
    by code_simp
  with allData_union [of "[\<lparr>url = ascii ''a'', data = [tokyo @ chiho @ terminator]\<rparr>,
                      \<lparr>url = ascii ''c'', data = [tokyo @ chiho @ terminator]\<rparr>]", THEN conjunct2, THEN conjunct1]
  show ?thesis by simp
qed

text \<open>
  The claim as stated fails. In both scripts a longer name of the first result stays in
  front of a shorter name of the second one, where the sort rule would put the shorter
  first; and in \<^verbatim>\<open>main.ts\<close>, which has no set, two results with the same name give
  that name twice.
\<close>

theorem allData_union_counterexample:
  "allData [\<lparr>url = ascii ''a'', data = [[0x4E19] @ terminator @ shibu]\<rparr>,
            \<lparr>url = ascii ''c'', data = [[0x4E59] @ terminator]\<rparr>]
     = [[0x4E19] @ terminator @ shibu, [0x4E59] @ terminator]
   \<and> allData_part000 [\<lparr>url = ascii ''a'', data = [[0x4E19] @ terminator @ shibu]\<rparr>,
                      \<lparr>url = ascii ''c'', data = [[0x4E59] @ terminator]\<rparr>]
     = [[0x4E19] @ terminator @ shibu, [0x4E59] @ terminator]
   \<and> aggregate (allData [\<lparr>url = ascii ''a'', data = [[0x4E19] @ terminator @ shibu]\<rparr>,
                         \<lparr>url = ascii ''c'', data = [[0x4E59] @ terminator]\<rparr>])
     = [[0x4E59] @ terminator, [0x4E19] @ terminator @ shibu]
   \<and> \<not> distinct (allData [\<lparr>url = ascii ''a'', data = [tokyo @ chiho @ terminator]\<rparr>,
                          \<lparr>url = ascii ''c'', data = [tokyo @ chiho @ terminator]\<rparr>])"
proof (intro conjI)
  show "allData [\<lparr>url = ascii ''a'', data = [[0x4E19] @ terminator @ shibu]\<rparr>,
            \<lparr>url = ascii ''c'', data = [[0x4E59] @ terminator]\<rparr>]
     = [[0x4E19] @ terminator @ shibu, [0x4E59] @ terminator]"
    by (simp add: allData_def)
  show "allData_part000 [\<lparr>url = ascii ''a'', data = [[0x4E19] @ terminator @ shibu]\<rparr>,
                      \<lparr>url = ascii ''c'', data = [[0x4E59] @ terminator]\<rparr>]
     = [[0x4E19] @ terminator @ shibu, [0x4E59] @ terminator]"
    by code_simp
  show "aggregate (allData [\<lparr>url = ascii ''a'', data = [[0x4E19] @ terminator @ shibu]\<rparr>,
                         \<lparr>url = ascii ''c'', data = [[0x4E59] @ terminator]\<rparr>])
     = [[0x4E59] @ terminator, [0x4E19] @ terminator @ shibu]"
    by code_simp
  show "\<not> distinct (allData [\<lparr>url = ascii ''a'', data = [tokyo @ chiho @ terminator]\<rparr>,
                          \<lparr>url = ascii ''c'', data = [tokyo @ chiho @ terminator]\<rparr>])"
    by (simp add: allData_def)
qed




end
